theory Spec2Isabelle
  imports Complex_Main "HOL-Library.Product_Lexorder" "HOL-Library.Multiset"
begin

section \<open>Characters and strings\<close>

text \<open>
  A Python \<open>str\<close> is modelled as a \<open>string\<close> whose characters are the code points
  below 256. On that range \<open>\d\<close> matches exactly the ASCII digits, and \<open>\s\<close>,
  \<open>str.split()\<close> and \<open>str.strip()\<close> agree on the white-space characters listed in
  \<open>is_space\<close>.
\<close>

definition is_digit :: "char \<Rightarrow> bool" where
  "is_digit c = (c \<in> set ''0123456789'')"

definition is_space :: "char \<Rightarrow> bool" where
  "is_space c = (c \<in> set [CHR 0x09, CHR 0x0A, CHR 0x0B, CHR 0x0C, CHR 0x0D,
                            CHR 0x1C, CHR 0x1D, CHR 0x1E, CHR 0x1F, CHR 0x20,
                            CHR 0x85, CHR 0xA0])"

definition newline :: char where
  "newline = CHR 0x0A"

definition nospace :: "string \<Rightarrow> bool" where
  "nospace w = list_all (\<lambda>c. \<not> is_space c) w"

text \<open>\<open>str.split()\<close> without arguments: maximal runs of non-space characters.\<close>

fun split_from :: "string \<Rightarrow> string \<Rightarrow> string list" where
  "split_from cur [] = (if cur = [] then [] else [cur])"
| "split_from cur (c # cs) =
     (if is_space c then (if cur = [] then split_from [] cs else cur # split_from [] cs)
      else split_from (cur @ [c]) cs)"

definition py_split :: "string \<Rightarrow> string list" where
  "py_split s = split_from [] s"

text \<open>\<open>str.split(sep)\<close> with a one-character separator: empty fields are kept.\<close>

fun split_on_from :: "char \<Rightarrow> string \<Rightarrow> string \<Rightarrow> string list" where
  "split_on_from sep cur [] = [cur]"
| "split_on_from sep cur (c # cs) =
     (if c = sep then cur # split_on_from sep [] cs else split_on_from sep (cur @ [c]) cs)"

definition split_on :: "char \<Rightarrow> string \<Rightarrow> string list" where
  "split_on sep s = split_on_from sep [] s"

definition strip :: "string \<Rightarrow> string" where
  "strip s = rev (dropWhile is_space (rev (dropWhile is_space s)))"

fun py_join :: "string \<Rightarrow> string list \<Rightarrow> string" where
  "py_join sep [] = []"
| "py_join sep [x] = x"
| "py_join sep (x # y # ys) = x @ sep @ py_join sep (y # ys)"

text \<open>Python slicing \<open>xs[i:j]\<close> and indexing \<open>xs[i]\<close>, negative positions counted from the end.\<close>

definition clamp_index :: "nat \<Rightarrow> int \<Rightarrow> nat" where
  "clamp_index n i = (if i < 0 then nat (max 0 (int n + i)) else min n (nat i))"

definition py_slice :: "'a list \<Rightarrow> int \<Rightarrow> int \<Rightarrow> 'a list" where
  "py_slice xs i j =
     (let a = clamp_index (length xs) i; b = clamp_index (length xs) j in take (b - a) (drop a xs))"

datatype exn = ValueError | IndexError | AttributeError | OSError

definition py_index :: "'a list \<Rightarrow> int \<Rightarrow> exn + 'a" where
  "py_index xs i =
     (if 0 \<le> i
      then (if nat i < length xs then Inr (xs ! nat i) else Inl IndexError)
      else (if nat (- i) \<le> length xs then Inr (xs ! (length xs - nat (- i)))
            else Inl IndexError))"

section \<open>Regular expressions\<close>

text \<open>
  The two patterns of the source are kept as data and run by a derivative matcher. Both
  are used through \<open>bool(re.match(p, text))\<close> and end in \<open>$\<close>, so the match is anchored
  at both ends; \<open>$\<close> also matches just before a final newline, which is what \<open>eos\<close>
  stands for.
\<close>

datatype cclass = Lit char | Range char char | Digit | Space

fun cmatch :: "cclass \<Rightarrow> char \<Rightarrow> bool" where
  "cmatch (Lit a) c = (c = a)"
| "cmatch (Range lo hi) c = ((of_char lo :: nat) \<le> of_char c \<and> (of_char c :: nat) \<le> of_char hi)"
| "cmatch Digit c = is_digit c"
| "cmatch Space c = is_space c"

datatype regex = Zero | One | Atom cclass | Alt regex regex | Seq regex regex | Star regex

fun nullable :: "regex \<Rightarrow> bool" where
  "nullable Zero = False"
| "nullable One = True"
| "nullable (Atom a) = False"
| "nullable (Alt r s) = (nullable r \<or> nullable s)"
| "nullable (Seq r s) = (nullable r \<and> nullable s)"
| "nullable (Star r) = True"

fun deriv :: "char \<Rightarrow> regex \<Rightarrow> regex" where
  "deriv c Zero = Zero"
| "deriv c One = Zero"
| "deriv c (Atom a) = (if cmatch a c then One else Zero)"
| "deriv c (Alt r s) = Alt (deriv c r) (deriv c s)"
| "deriv c (Seq r s) =
     (if nullable r then Alt (Seq (deriv c r) s) (deriv c s) else Seq (deriv c r) s)"
| "deriv c (Star r) = Seq (deriv c r) (Star r)"

fun matches :: "regex \<Rightarrow> string \<Rightarrow> bool" where
  "matches r [] = nullable r"
| "matches r (c # cs) = matches (deriv c r) cs"

primrec times :: "nat \<Rightarrow> regex \<Rightarrow> regex" where
  "times 0 r = One"
| "times (Suc n) r = Seq r (times n r)"

primrec upto :: "nat \<Rightarrow> regex \<Rightarrow> regex" where
  "upto 0 r = One"
| "upto (Suc n) r = Alt One (Seq r (upto n r))"

definition between :: "nat \<Rightarrow> nat \<Rightarrow> regex \<Rightarrow> regex" where
  "between m n r = Seq (times m r) (upto (n - m) r)"

definition plus :: "regex \<Rightarrow> regex" where
  "plus r = Seq r (Star r)"

definition eos :: regex where
  "eos = Alt One (Atom (Lit (CHR 0x0A)))"

definition seqs :: "regex list \<Rightarrow> regex" where
  "seqs rs = foldr Seq rs One"

text \<open>\<^verbatim>\<open>^[A-Z][a-z]{2}\s+\d{1,2}$\<close>\<close>

definition date_pattern :: regex where
  "date_pattern = seqs [Atom (Range CHR ''A'' CHR ''Z''), times 2 (Atom (Range CHR ''a'' CHR ''z'')),
                        plus (Atom Space), between 1 2 (Atom Digit), eos]"

definition is_date :: "string \<Rightarrow> bool" where
  "is_date text = matches date_pattern text"

text \<open>\<^verbatim>\<open>^\$\d{1,3}(,\d{3})*\.\d{2}$\<close>\<close>

definition amount_pattern :: regex where
  "amount_pattern = seqs [Atom (Lit CHR ''$''), between 1 3 (Atom Digit),
                          Star (Seq (Atom (Lit CHR '','')) (times 3 (Atom Digit))),
                          Atom (Lit CHR ''.''), times 2 (Atom Digit), eos]"

definition is_amount :: "string \<Rightarrow> bool" where
  "is_amount text = matches amount_pattern text"

text \<open>The denotation of a pattern, used to state what the matcher accepts.\<close>

definition conc :: "string set \<Rightarrow> string set \<Rightarrow> string set" where
  "conc A B = {u @ v | u v. u \<in> A \<and> v \<in> B}"

inductive_set star :: "string set \<Rightarrow> string set" for L :: "string set" where
  star_empty: "[] \<in> star L"
| star_app: "u \<in> L \<Longrightarrow> v \<in> star L \<Longrightarrow> u @ v \<in> star L"

fun lang :: "regex \<Rightarrow> string set" where
  "lang Zero = {}"
| "lang One = {[]}"
| "lang (Atom a) = {[c] | c. cmatch a c}"
| "lang (Alt r s) = lang r \<union> lang s"
| "lang (Seq r s) = conc (lang r) (lang s)"
| "lang (Star r) = star (lang r)"

text \<open>Token shapes in the words of the specification.\<close>

definition is_upper :: "char \<Rightarrow> bool" where
  "is_upper c = cmatch (Range CHR ''A'' CHR ''Z'') c"

definition is_lower :: "char \<Rightarrow> bool" where
  "is_lower c = cmatch (Range CHR ''a'' CHR ''z'') c"

definition month_form :: "string \<Rightarrow> bool" where
  "month_form m = (case m of [u, a, b] \<Rightarrow> is_upper u \<and> is_lower a \<and> is_lower b | _ \<Rightarrow> False)"

definition day_form :: "string \<Rightarrow> bool" where
  "day_form d = (1 \<le> length d \<and> length d \<le> 2 \<and> list_all is_digit d)"

definition group_form :: "nat \<Rightarrow> nat \<Rightarrow> string \<Rightarrow> bool" where
  "group_form lo hi g = (lo \<le> length g \<and> length g \<le> hi \<and> list_all is_digit g)"

text \<open>
  A currency token: \<open>$\<close>, comma-separated chunks of digits, \<open>.\<close>, two digits. The
  predicate \<open>ok\<close> says which chunk lists are admitted.
\<close>

definition chunked_amount :: "(string list \<Rightarrow> bool) \<Rightarrow> string \<Rightarrow> bool" where
  "chunked_amount ok t =
     (case t of
        [] \<Rightarrow> False
      | c # body \<Rightarrow>
          c = CHR ''$'' \<and> 3 \<le> length body \<and>
          (let whole = take (length body - 3) body; frac = drop (length body - 3) body
           in take 1 frac = ''.'' \<and> group_form 2 2 (drop 1 frac) \<and> ok (split_on CHR '','' whole)))"

text \<open>The specification's wording: every chunk has at most three digits.\<close>

definition chunks_at_most_3 :: "string list \<Rightarrow> bool" where
  "chunks_at_most_3 cs = list_all (group_form 1 3) cs"

text \<open>What the pattern asks: one to three digits first, then chunks of exactly three.\<close>

definition chunks_thousands :: "string list \<Rightarrow> bool" where
  "chunks_thousands cs = (case cs of [] \<Rightarrow> False | g # ks \<Rightarrow> group_form 1 3 g \<and> list_all (group_form 3 3) ks)"

section \<open>Floating-point amounts\<close>

text \<open>
  \<open>float(s)\<close> returns the IEEE 754 binary64 value nearest to the decimal \<open>s\<close>, ties to
  even. \<open>Fin m e\<close> is the finite value \<open>m * 2 ^ e\<close>, \<open>Inf s\<close> an infinity (negative when
  \<open>s\<close>). \<open>nearest_double a b\<close> rounds the non-negative fraction \<open>a / b\<close>: the fraction is
  scaled by powers of two until its quotient has 53 bits (or the smallest exponent
  \<open>- 1074\<close> is reached), and the quotient is rounded half to even.
\<close>

datatype pyfloat = Fin int int | Inf bool

definition round_half_even :: "nat \<Rightarrow> nat \<Rightarrow> nat" where
  "round_half_even a b =
     (let q = a div b; r = a mod b
      in if 2 * r < b then q else if b < 2 * r then q + 1 else if even q then q else q + 1)"

function shift_up :: "nat \<Rightarrow> nat \<Rightarrow> nat \<Rightarrow> nat \<times> nat" where
  "shift_up a b k =
     (if a < 2 ^ 52 * b \<and> k < 1074 then shift_up (2 * a) b (Suc k) else (a, k))"
  by pat_completeness auto
termination
  by (relation "measure (\<lambda>(a, b, k). 1074 - k)") auto

function shift_down :: "nat \<Rightarrow> nat \<Rightarrow> nat \<Rightarrow> nat \<times> nat" where
  "shift_down a b j =
     (if 0 < b \<and> 2 ^ 53 * b \<le> a then shift_down a (2 * b) (Suc j) else (b, j))"
  by pat_completeness auto
termination
  by (relation "measure (\<lambda>(a, b, j). Suc a - 2 ^ 53 * b)") auto

declare shift_up.simps [simp del] shift_down.simps [simp del]

definition normalise :: "nat \<Rightarrow> nat \<Rightarrow> nat \<times> nat \<times> int" where
  "normalise a b =
     (let (a', k) = shift_up a b 0; (b', j) = shift_down a' b 0 in (a', b', int j - int k))"

definition pack :: "nat \<Rightarrow> int \<Rightarrow> pyfloat" where
  "pack m e =
     (if m = 2 ^ 53 then (if 971 < e + 1 then Inf False else Fin (2 ^ 52) (e + 1))
      else if 971 < e then Inf False else Fin (int m) e)"

definition nearest_double :: "nat \<Rightarrow> nat \<Rightarrow> pyfloat" where
  "nearest_double a b =
     (if a = 0 then Fin 0 0
      else let (a', b', e) = normalise a b in pack (round_half_even a' b') e)"

fun negate :: "pyfloat \<Rightarrow> pyfloat" where
  "negate (Fin m e) = Fin (- m) e"
| "negate (Inf s) = Inf (\<not> s)"

fun float_nonneg :: "pyfloat \<Rightarrow> bool" where
  "float_nonneg (Fin m e) = (0 \<le> m)"
| "float_nonneg (Inf s) = (\<not> s)"

definition digit_val :: "char \<Rightarrow> nat" where
  "digit_val c = of_char c - 48"

definition digits_value :: "string \<Rightarrow> nat" where
  "digits_value ds = foldl (\<lambda>n c. 10 * n + digit_val c) 0 ds"

text \<open>
  \<open>float\<close> on a string: surrounding white space is dropped, then an optional sign and a
  decimal numeral with an optional fraction are read. Exponents, \<open>inf\<close>, \<open>nan\<close> and
  digit-group underscores, which \<open>float\<close> also reads, are outside this model (it answers
  \<open>ValueError\<close> for them); no string that passes \<open>is_amount\<close> contains their characters.
\<close>

definition py_float :: "string \<Rightarrow> exn + pyfloat" where
  "py_float s =
     (let t = strip s;
          (neg, u) = (case t of [] \<Rightarrow> (False, [])
                      | c # r \<Rightarrow> if c = CHR ''-'' then (True, r)
                                 else if c = CHR ''+'' then (False, r) else (False, t));
          ip = takeWhile (\<lambda>c. c \<noteq> CHR ''.'') u;
          fp = drop 1 (dropWhile (\<lambda>c. c \<noteq> CHR ''.'') u)
      in if list_all is_digit ip \<and> list_all is_digit fp \<and> (ip \<noteq> [] \<or> fp \<noteq> [])
         then Inr ((if neg then negate else id)
                     (nearest_double (digits_value (ip @ fp)) (10 ^ length fp)))
         else Inl ValueError)"

definition parse_amount :: "string \<Rightarrow> exn + pyfloat" where
  "parse_amount amount_str =
     py_float (filter (\<lambda>c. c \<noteq> CHR '','') (filter (\<lambda>c. c \<noteq> CHR ''$'') amount_str))"

text \<open>The amount a token denotes, in cents, and the cent nearest to a float.\<close>

definition amount_cents :: "string \<Rightarrow> nat" where
  "amount_cents t = digits_value (filter is_digit t)"

fun nearest_cents :: "pyfloat \<Rightarrow> int option" where
  "nearest_cents (Fin m e) =
     (if 0 \<le> e then Some (100 * m * 2 ^ nat e)
      else if 0 \<le> m then Some (int (round_half_even (100 * nat m) (2 ^ nat (- e))))
      else Some (- int (round_half_even (100 * nat (- m)) (2 ^ nat (- e)))))"
| "nearest_cents (Inf s) = None"

section \<open>Dates\<close>

text \<open>
  A \<open>datetime\<close> at midnight is the triple (year, month, day); triples compare
  lexicographically, as \<open>datetime\<close> values compare chronologically.

  \<open>datetime.strptime\<close> turns the format into a regular expression (a blank of the format
  means non-empty white space) that must match the whole string: \<open>%b\<close> is one of the
  twelve English abbreviations, case ignored; \<open>%d\<close> is \<^verbatim>\<open>3[0-1]|[1-2]\d|0[1-9]|[1-9]| [1-9]\<close>;
  \<open>%m\<close> is \<^verbatim>\<open>1[0-2]|0[1-9]|[1-9]\<close>; \<open>%Y\<close> is four digits. The date is then built,
  which fails for year 0 and for a day beyond the month's length. Every failure is a
  \<open>ValueError\<close>.
\<close>

type_synonym date = "nat \<times> nat \<times> nat"

definition ascii_lower :: "char \<Rightarrow> char" where
  "ascii_lower c =
     (case map_of (zip ''ABCDEFGHIJKLMNOPQRSTUVWXYZ'' ''abcdefghijklmnopqrstuvwxyz'') c of
        Some l \<Rightarrow> l | None \<Rightarrow> c)"

definition month_names :: "string list" where
  "month_names = [''jan'', ''feb'', ''mar'', ''apr'', ''may'', ''jun'',
                  ''jul'', ''aug'', ''sep'', ''oct'', ''nov'', ''dec'']"

primrec index_of :: "'a list \<Rightarrow> 'a \<Rightarrow> nat option" where
  "index_of [] x = None"
| "index_of (y # ys) x = (if x = y then Some 0 else map_option Suc (index_of ys x))"

definition month_of_abbrev :: "string \<Rightarrow> nat option" where
  "month_of_abbrev b = map_option Suc (index_of month_names (map ascii_lower b))"

definition number_field :: "nat \<Rightarrow> nat \<Rightarrow> string \<Rightarrow> nat option" where
  "number_field lo hi f =
     (if f \<noteq> [] \<and> length f \<le> 2 \<and> list_all is_digit f \<and> lo \<le> digits_value f \<and> digits_value f \<le> hi
      then Some (digits_value f) else None)"

definition month_of_field :: "string \<Rightarrow> nat option" where
  "month_of_field f = number_field 1 12 f"

definition day_of_field :: "string \<Rightarrow> nat option" where
  "day_of_field f =
     (case f of [s, c] \<Rightarrow> if s = CHR '' '' then number_field 1 9 [c] else number_field 1 31 f
      | _ \<Rightarrow> number_field 1 31 f)"

definition year_of_field :: "string \<Rightarrow> nat option" where
  "year_of_field f = (if length f = 4 \<and> list_all is_digit f then Some (digits_value f) else None)"

definition is_leap :: "nat \<Rightarrow> bool" where
  "is_leap y = (y mod 4 = 0 \<and> (y mod 100 \<noteq> 0 \<or> y mod 400 = 0))"

definition days_in_month :: "nat \<Rightarrow> nat \<Rightarrow> nat" where
  "days_in_month y m =
     (if m = 2 then (if is_leap y then 29 else 28)
      else if m = 4 \<or> m = 6 \<or> m = 9 \<or> m = 11 then 30 else 31)"

definition make_date :: "nat option \<Rightarrow> nat option \<Rightarrow> nat option \<Rightarrow> exn + date" where
  "make_date yo mo do' =
     (case (yo, mo, do') of
        (Some y, Some m, Some d) \<Rightarrow>
          if 1 \<le> y \<and> d \<le> days_in_month y m then Inr (y, m, d) else Inl ValueError
      | _ \<Rightarrow> Inl ValueError)"

text \<open>\<open>datetime.strptime(s, '%b %d %Y')\<close>\<close>

definition strptime_b_d_Y :: "string \<Rightarrow> exn + date" where
  "strptime_b_d_Y s =
     (if s = [] \<or> is_space (hd s) \<or> is_space (last s) then Inl ValueError
      else case py_split s of
             [b, d, y] \<Rightarrow> make_date (year_of_field y) (month_of_abbrev b) (day_of_field d)
           | _ \<Rightarrow> Inl ValueError)"

text \<open>\<open>datetime.strptime(s, '%Y-%m-%d')\<close>\<close>

definition strptime_Y_m_d :: "string \<Rightarrow> exn + date" where
  "strptime_Y_m_d s =
     (case split_on CHR ''-'' s of
        [y, m, d] \<Rightarrow> make_date (year_of_field y) (month_of_field m) (day_of_field d)
      | _ \<Rightarrow> Inl ValueError)"

text \<open>
  \<open>strftime('%Y-%m-%d')\<close>. Month and day are zero-padded to two digits. Whether \<open>%Y\<close>
  is zero-padded to four digits for a year below 1000 depends on the C library (glibc
  does not pad); \<open>pad\<close> is that property of the platform.
\<close>

definition digit_char :: "nat \<Rightarrow> char" where
  "digit_char n = ''0123456789'' ! n"

definition pad2 :: "nat \<Rightarrow> string" where
  "pad2 n = [digit_char (n div 10 mod 10), digit_char (n mod 10)]"

definition pad4 :: "nat \<Rightarrow> string" where
  "pad4 n = pad2 (n div 100) @ pad2 n"

definition strftime_Y_m_d :: "bool \<Rightarrow> date \<Rightarrow> string" where
  "strftime_Y_m_d pad dt =
     (case dt of (y, m, d) \<Rightarrow>
        (if pad then pad4 y else dropWhile (\<lambda>c. c = CHR ''0'') (pad4 y))
        @ ''-'' @ pad2 m @ ''-'' @ pad2 d)"

text \<open>The ISO 8601 calendar form \<open>YYYY-MM-DD\<close> of a date.\<close>

definition iso_8601 :: "date \<Rightarrow> string" where
  "iso_8601 dt = (case dt of (y, m, d) \<Rightarrow> pad4 y @ ''-'' @ pad2 m @ ''-'' @ pad2 d)"

section \<open>The statement parser\<close>

record transaction =
  transaction_date :: string
  post_date :: string
  description :: string
  amount :: pyfloat

definition extract_year_from_filename :: "string \<Rightarrow> string" where
  "extract_year_from_filename fname = take 4 fname"

text \<open>Line 73 of the source: the test that makes a line a transaction line.\<close>

definition is_transaction_line :: "string list \<Rightarrow> bool" where
  "is_transaction_line parts =
     (4 \<le> length parts \<and> is_date (parts ! 0 @ '' '' @ parts ! 1) \<and> is_amount (last parts))"

text \<open>Lines 75 to 90: the body of the inner \<open>try\<close>, with every raise as a result.\<close>

definition build_transaction :: "bool \<Rightarrow> string \<Rightarrow> string list \<Rightarrow> exn + transaction" where
  "build_transaction pad yr parts =
     (let trans_date = py_join '' '' (py_slice parts 0 2);
          post_date' = py_join '' '' (py_slice parts 2 4)
      in case py_index parts (- 1) of Inl e \<Rightarrow> Inl e | Inr amt \<Rightarrow>
         (let descr = py_join '' '' (py_slice parts 4 (- 1))
          in case strptime_b_d_Y (trans_date @ '' '' @ yr) of Inl e \<Rightarrow> Inl e | Inr d1 \<Rightarrow>
             (case strptime_b_d_Y (post_date' @ '' '' @ yr) of Inl e \<Rightarrow> Inl e | Inr d2 \<Rightarrow>
             (case parse_amount amt of Inl e \<Rightarrow> Inl e | Inr a \<Rightarrow>
                Inr \<lparr>transaction_date = strftime_Y_m_d pad d1,
                     post_date = strftime_Y_m_d pad d2,
                     description = descr, amount = a\<rparr>))))"

text \<open>What the program prints, one constructor per \<open>print\<close> of the source.\<close>

datatype message =
    LineWarning string string
  | LineError exn
  | PdfError string exn
  | NoMatchingFiles
  | FoundFiles nat
  | ListedFile string
  | StartingProcessing
  | ProcessingFile string
  | AddedTransactions nat string
  | NoTransactionsFound string
  | NoTransactionsToSave
  | SavedTransactions nat string string
  | SaveError string exn

text \<open>
  The PDF library is the environment: opening a document yields its pages or raises;
  \<open>extract_text\<close> on a page yields its text or raises (a page without text, for which
  older versions of the library return \<open>None\<close>, raises \<open>AttributeError\<close> at \<open>.split\<close>).
\<close>

datatype page = PageText string | PageRaises exn

record document =
  filename :: string
  opened :: "exn + page list"

type_synonym 'a outcome = "(exn + 'a) \<times> message list"

text \<open>Lines 68 to 95: one line of a page.\<close>

definition process_line ::
  "bool \<Rightarrow> string \<Rightarrow> string \<Rightarrow> string \<Rightarrow> transaction list \<Rightarrow> message list
     \<Rightarrow> transaction list outcome" where
  "process_line pad fname yr line ts msgs =
     (if strip line = [] then (Inr ts, msgs)
      else let parts = py_split line
           in if is_transaction_line parts
              then (case build_transaction pad yr parts of
                      Inr t \<Rightarrow> (Inr (ts @ [t]), msgs)
                    | Inl e \<Rightarrow>
                        if e = ValueError \<or> e = IndexError
                        then (Inr ts, msgs @ [LineWarning fname line, LineError e])
                        else (Inl e, msgs))
              else (Inr ts, msgs))"

fun parse_lines ::
  "bool \<Rightarrow> string \<Rightarrow> string \<Rightarrow> string list \<Rightarrow> transaction list \<Rightarrow> message list
     \<Rightarrow> transaction list outcome" where
  "parse_lines pad fname yr [] ts msgs = (Inr ts, msgs)"
| "parse_lines pad fname yr (l # ls) ts msgs =
     (case process_line pad fname yr l ts msgs of
        (Inl e, msgs') \<Rightarrow> (Inl e, msgs')
      | (Inr ts', msgs') \<Rightarrow> parse_lines pad fname yr ls ts' msgs')"

fun parse_pages ::
  "bool \<Rightarrow> string \<Rightarrow> string \<Rightarrow> page list \<Rightarrow> transaction list \<Rightarrow> message list
     \<Rightarrow> transaction list outcome" where
  "parse_pages pad fname yr [] ts msgs = (Inr ts, msgs)"
| "parse_pages pad fname yr (PageRaises e # ps) ts msgs = (Inl e, msgs)"
| "parse_pages pad fname yr (PageText text # ps) ts msgs =
     (case parse_lines pad fname yr (split_on newline text) ts msgs of
        (Inl e, msgs') \<Rightarrow> (Inl e, msgs')
      | (Inr ts', msgs') \<Rightarrow> parse_pages pad fname yr ps ts' msgs')"

text \<open>\<open>parse_statement\<close>: the list of transactions, or \<open>None\<close> after any exception.\<close>

definition parse_statement ::
  "bool \<Rightarrow> document \<Rightarrow> message list \<Rightarrow> transaction list option \<times> message list" where
  "parse_statement pad doc msgs =
     (let yr = extract_year_from_filename (filename doc);
          run = (case opened doc of
                   Inl e \<Rightarrow> (Inl e, msgs)
                 | Inr ps \<Rightarrow> parse_pages pad (filename doc) yr ps [] msgs)
      in case run of
           (Inl e, msgs') \<Rightarrow> (None, msgs' @ [PdfError (filename doc) e])
         | (Inr ts, msgs') \<Rightarrow> (Some ts, msgs'))"

text \<open>
  \<open>transactions_by_year\<close> is a \<open>defaultdict(list)\<close>; a dictionary keeps its keys in
  insertion order, so it is an association list. \<open>extend_year\<close> is
  \<open>self.transactions_by_year[year].extend(transactions)\<close>.
\<close>

type_synonym ledger = "(string \<times> transaction list) list"

fun extend_year :: "ledger \<Rightarrow> string \<Rightarrow> transaction list \<Rightarrow> ledger" where
  "extend_year [] yr ts = [(yr, ts)]"
| "extend_year ((k, v) # rest) yr ts =
     (if k = yr then (k, v @ ts) # rest else (k, v) # extend_year rest yr ts)"

fun lookup_year :: "ledger \<Rightarrow> string \<Rightarrow> transaction list" where
  "lookup_year [] yr = []"
| "lookup_year ((k, v) # rest) yr = (if k = yr then v else lookup_year rest yr)"

record parser_state =
  transactions_by_year :: ledger
  printed :: "message list"

text \<open>Lines 118 to 126: the body of the loop over the statement files.\<close>

definition process_file :: "bool \<Rightarrow> parser_state \<Rightarrow> document \<Rightarrow> parser_state" where
  "process_file pad st doc =
     (case parse_statement pad doc (printed st @ [ProcessingFile (filename doc)]) of
        (res, msgs) \<Rightarrow>
          (case res of
             Some ts \<Rightarrow>
               if ts \<noteq> []
               then (let yr = extract_year_from_filename (filename doc)
                     in \<lparr>transactions_by_year = extend_year (transactions_by_year st) yr ts,
                         printed = msgs @ [AddedTransactions (length ts) yr]\<rparr>)
               else st\<lparr>printed := msgs @ [NoTransactionsFound (filename doc)]\<rparr>
           | None \<Rightarrow> st\<lparr>printed := msgs @ [NoTransactionsFound (filename doc)]\<rparr>))"

text \<open>
  \<open>process_all_statements\<close>; its argument is \<open>sorted(pdf_files)\<close>, the matching files in
  the order in which the loop visits them.
\<close>

definition process_all_statements ::
  "bool \<Rightarrow> document list \<Rightarrow> parser_state \<Rightarrow> bool \<times> parser_state" where
  "process_all_statements pad pdf_files st =
     (if pdf_files = [] then (False, st\<lparr>printed := printed st @ [NoMatchingFiles]\<rparr>)
      else let st1 = st\<lparr>printed := printed st @ [FoundFiles (length pdf_files)]
                          @ map (\<lambda>d. ListedFile (filename d)) pdf_files @ [StartingProcessing]\<rparr>;
               st2 = foldl (process_file pad) st1 pdf_files
           in (transactions_by_year st2 \<noteq> [], st2))"

text \<open>The state the constructor builds.\<close>

definition initial_state :: parser_state where
  "initial_state = \<lparr>transactions_by_year = [], printed = []\<rparr>"

section \<open>Export\<close>

text \<open>
  \<open>sorted(xs, key=f)\<close>: the keys are computed first, in order, and the first raise
  propagates; then the list is sorted stably by key.
\<close>

fun collect :: "(exn + 'k) list \<Rightarrow> exn + 'k list" where
  "collect [] = Inr []"
| "collect (Inl e # rest) = Inl e"
| "collect (Inr k # rest) = (case collect rest of Inl e \<Rightarrow> Inl e | Inr ks \<Rightarrow> Inr (k # ks))"

definition py_sorted :: "('a \<Rightarrow> exn + 'k::linorder) \<Rightarrow> 'a list \<Rightarrow> exn + 'a list" where
  "py_sorted key xs =
     (case collect (map key xs) of
        Inl e \<Rightarrow> Inl e
      | Inr ks \<Rightarrow> Inr (map snd (sort_key fst (zip ks xs))))"

definition date_key :: "transaction \<Rightarrow> exn + date" where
  "date_key x = strptime_Y_m_d (transaction_date x)"

datatype csv_row = HeaderRow "string list" | DataRow transaction

definition fieldnames :: "string list" where
  "fieldnames = [''Transaction Date'', ''Post Date'', ''Description'', ''Amount'']"

text \<open>
  The directory: for each file name the rows of the file, if it exists. \<open>open_fails\<close>
  is the environment's answer to \<open>open(output_file, 'w')\<close>: the exception, if any. A
  write that fails after the file was opened is not modelled.
\<close>

type_synonym files = "string \<Rightarrow> csv_row list option"

definition output_file :: "string \<Rightarrow> string" where
  "output_file yr = yr @ ''_transactions.csv''"

fun save_years ::
  "(string \<Rightarrow> exn option) \<Rightarrow> ledger \<Rightarrow> files \<Rightarrow> message list \<Rightarrow> bool \<times> files \<times> message list" where
  "save_years open_fails [] fs msgs = (True, fs, msgs)"
| "save_years open_fails ((yr, ts) # rest) fs msgs =
     (case open_fails (output_file yr) of
        Some e \<Rightarrow> (False, fs, msgs @ [SaveError yr e])
      | None \<Rightarrow>
          (case py_sorted date_key ts of
             Inl e \<Rightarrow> (False, fs(output_file yr \<mapsto> [HeaderRow fieldnames]), msgs @ [SaveError yr e])
           | Inr sorted_transactions \<Rightarrow>
               save_years open_fails rest
                 (fs(output_file yr \<mapsto> HeaderRow fieldnames # map DataRow sorted_transactions))
                 (msgs @ [SavedTransactions (length ts) yr (output_file yr)])))"

definition save_transactions_by_year ::
  "(string \<Rightarrow> exn option) \<Rightarrow> parser_state \<Rightarrow> files \<Rightarrow> bool \<times> files \<times> message list" where
  "save_transactions_by_year open_fails st fs =
     (if transactions_by_year st = [] then (False, fs, printed st @ [NoTransactionsToSave])
      else save_years open_fails (transactions_by_year st) fs (printed st))"

section \<open>The matcher decides the denotation\<close>

lemma nullable_lang: "nullable r \<longleftrightarrow> [] \<in> lang r"
  by (induction r) (auto simp: conc_def intro: star.star_empty)

lemma star_cons_split:
  assumes "x \<in> star L" and "x = c # w"
  shows "\<exists>u v. w = u @ v \<and> c # u \<in> L \<and> v \<in> star L"
  using assms
proof (induction arbitrary: w rule: star.induct)
  case star_empty
  then show ?case by simp
next
  case (star_app u v)
  show ?case
  proof (cases u)
    case Nil
    with star_app show ?thesis by simp
  next
    case (Cons a u')
    with star_app.prems have "a = c" and "w = u' @ v" by simp_all
    with Cons star_app.hyps show ?thesis by blast
  qed
qed

lemma star_cons_iff:
  "c # w \<in> star L \<longleftrightarrow> (\<exists>u v. w = u @ v \<and> c # u \<in> L \<and> v \<in> star L)"
proof
  assume "c # w \<in> star L"
  then show "\<exists>u v. w = u @ v \<and> c # u \<in> L \<and> v \<in> star L"
    by (rule star_cons_split) simp
next
  assume "\<exists>u v. w = u @ v \<and> c # u \<in> L \<and> v \<in> star L"
  then obtain u v where "w = u @ v" "c # u \<in> L" "v \<in> star L" by blast
  then show "c # w \<in> star L"
    using star.star_app [of "c # u" L v] by simp
qed

lemma conc_cons_iff:
  "c # w \<in> conc A B \<longleftrightarrow>
     (\<exists>u v. w = u @ v \<and> c # u \<in> A \<and> v \<in> B) \<or> ([] \<in> A \<and> c # w \<in> B)"
  unfolding conc_def
  by (auto simp: Cons_eq_append_conv append_eq_Cons_conv)

lemma deriv_lang: "w \<in> lang (deriv c r) \<longleftrightarrow> c # w \<in> lang r"
proof (induction r arbitrary: w)
  case (Seq r s)
  then show ?case
    by (auto simp: conc_cons_iff nullable_lang) (auto simp: conc_def)
next
  case (Star r)
  then show ?case
    by (auto simp: star_cons_iff) (auto simp: conc_def)
qed auto

lemma matches_lang: "matches r s \<longleftrightarrow> s \<in> lang r"
  by (induction s arbitrary: r) (simp_all add: nullable_lang deriv_lang)

section \<open>What the two patterns accept\<close>

lemma conc_atom_Nil: "[] \<notin> conc {[c] | c. P c} B"
  by (auto simp: conc_def)

lemma conc_atom_Cons: "x # v \<in> conc {[c] | c. P c} B \<longleftrightarrow> P x \<and> v \<in> B"
proof
  assume "x # v \<in> conc {[c] | c. P c} B"
  then show "P x \<and> v \<in> B" by (auto simp: conc_def)
next
  assume "P x \<and> v \<in> B"
  then have "[x] \<in> {[c] | c. P c}" "v \<in> B" by auto
  then have "[x] @ v \<in> conc {[c] | c. P c} B" unfolding conc_def by blast
  then show "x # v \<in> conc {[c] | c. P c} B" by simp
qed

lemma lang_times_atom:
  "lang (times n (Atom a)) = {w. length w = n \<and> list_all (cmatch a) w}"
proof (induction n)
  case 0
  then show ?case by auto
next
  case (Suc n)
  show ?case
  proof (rule set_eqI)
    fix w
    show "w \<in> lang (times (Suc n) (Atom a)) \<longleftrightarrow>
          w \<in> {w. length w = Suc n \<and> list_all (cmatch a) w}"
      by (cases w) (auto simp: Suc conc_atom_Nil conc_atom_Cons)
  qed
qed

lemma lang_upto_atom:
  "lang (upto n (Atom a)) = {w. length w \<le> n \<and> list_all (cmatch a) w}"
proof (induction n)
  case 0
  then show ?case by auto
next
  case (Suc n)
  show ?case
  proof (rule set_eqI)
    fix w
    show "w \<in> lang (upto (Suc n) (Atom a)) \<longleftrightarrow>
          w \<in> {w. length w \<le> Suc n \<and> list_all (cmatch a) w}"
      by (cases w) (auto simp: Suc conc_atom_Nil conc_atom_Cons)
  qed
qed

lemma lang_between_atom:
  assumes "m \<le> n"
  shows "lang (between m n (Atom a)) =
         {w. m \<le> length w \<and> length w \<le> n \<and> list_all (cmatch a) w}"
proof (rule set_eqI)
  fix w
  show "w \<in> lang (between m n (Atom a)) \<longleftrightarrow>
        w \<in> {w. m \<le> length w \<and> length w \<le> n \<and> list_all (cmatch a) w}"
  proof
    assume "w \<in> lang (between m n (Atom a))"
    then obtain u v where "w = u @ v" "length u = m" "list_all (cmatch a) u"
      "length v \<le> n - m" "list_all (cmatch a) v"
      by (auto simp: between_def conc_def lang_times_atom lang_upto_atom)
    with assms show "w \<in> {w. m \<le> length w \<and> length w \<le> n \<and> list_all (cmatch a) w}"
      by auto
  next
    assume w: "w \<in> {w. m \<le> length w \<and> length w \<le> n \<and> list_all (cmatch a) w}"
    then have "take m w \<in> lang (times m (Atom a))" "drop m w \<in> lang (upto (n - m) (Atom a))"
      by (auto simp: lang_times_atom lang_upto_atom list_all_iff dest: in_set_takeD in_set_dropD)
    then have "take m w @ drop m w \<in> lang (between m n (Atom a))"
      unfolding between_def lang.simps conc_def by blast
    then show "w \<in> lang (between m n (Atom a))" by simp
  qed
qed

lemma star_atom: "w \<in> star {[c] | c. P c} \<longleftrightarrow> list_all P w"
proof
  assume "w \<in> star {[c] | c. P c}"
  then show "list_all P w" by (induction rule: star.induct) auto
next
  assume "list_all P w"
  then show "w \<in> star {[c] | c. P c}"
  proof (induction w)
    case Nil
    then show ?case by (simp add: star.star_empty)
  next
    case (Cons x xs)
    then have "[x] \<in> {[c] | c. P c}" "xs \<in> star {[c] | c. P c}" by auto
    then have "[x] @ xs \<in> star {[c] | c. P c}" by (rule star.star_app)
    then show ?case by simp
  qed
qed

lemma lang_plus_atom:
  "lang (plus (Atom a)) = {w. w \<noteq> [] \<and> list_all (cmatch a) w}"
proof (rule set_eqI)
  fix w
  show "w \<in> lang (plus (Atom a)) \<longleftrightarrow> w \<in> {w. w \<noteq> [] \<and> list_all (cmatch a) w}"
    by (cases w) (auto simp: plus_def conc_atom_Nil conc_atom_Cons star_atom)
qed

lemma star_concat: "w \<in> star L \<longleftrightarrow> (\<exists>ws. w = concat ws \<and> set ws \<subseteq> L)"
proof
  assume "w \<in> star L"
  then show "\<exists>ws. w = concat ws \<and> set ws \<subseteq> L"
  proof (induction rule: star.induct)
    case star_empty
    have "[] = concat [] \<and> set [] \<subseteq> L" by simp
    then show ?case by blast
  next
    case (star_app u v)
    then obtain ws where "v = concat ws" "set ws \<subseteq> L" by blast
    with star_app.hyps have "u @ v = concat (u # ws) \<and> set (u # ws) \<subseteq> L" by simp
    then show ?case by blast
  qed
next
  assume "\<exists>ws. w = concat ws \<and> set ws \<subseteq> L"
  then obtain ws where "w = concat ws" "set ws \<subseteq> L" by blast
  then show "w \<in> star L"
  proof (induction ws arbitrary: w)
    case Nil
    then show ?case by (simp add: star.star_empty)
  next
    case (Cons x xs)
    then show ?case by (simp add: star.star_app)
  qed
qed

lemma lang_eos: "lang eos = {[], [newline]}"
  by (auto simp: eos_def newline_def)

lemma conc_iff: "w \<in> conc A B \<longleftrightarrow> (\<exists>u v. w = u @ v \<and> u \<in> A \<and> v \<in> B)"
  by (auto simp: conc_def)

lemma conc_unit: "conc A {[]} = A"
  by (auto simp: conc_def)

lemma month_form_iff:
  "month_form m \<longleftrightarrow> (\<exists>u r. m = u # r \<and> is_upper u \<and> length r = 2 \<and> list_all is_lower r)"
proof
  assume "month_form m"
  then obtain u a b where "m = [u, a, b]" "is_upper u" "is_lower a" "is_lower b"
    by (auto simp: month_form_def split: list.splits)
  then have "m = u # [a, b] \<and> is_upper u \<and> length [a, b] = 2 \<and> list_all is_lower [a, b]"
    by simp
  then show "\<exists>u r. m = u # r \<and> is_upper u \<and> length r = 2 \<and> list_all is_lower r"
    by blast
next
  assume "\<exists>u r. m = u # r \<and> is_upper u \<and> length r = 2 \<and> list_all is_lower r"
  then obtain u r where m: "m = u # r" "is_upper u" "length r = 2" "list_all is_lower r"
    by blast
  from m(3) obtain a b where "r = [a, b]"
    by (cases r; cases "tl r") (auto simp: numeral_2_eq_2)
  with m show "month_form m" by (simp add: month_form_def)
qed

lemma lang_month:
  "conc (lang (Atom (Range CHR ''A'' CHR ''Z'')))
        (lang (times 2 (Atom (Range CHR ''a'' CHR ''z'')))) = {m. month_form m}"
proof (rule set_eqI)
  fix m
  have low: "list_all (cmatch (Range CHR ''a'' CHR ''z'')) r = list_all is_lower r" for r
    by (simp add: list_all_iff is_lower_def)
  show "m \<in> conc (lang (Atom (Range CHR ''A'' CHR ''Z'')))
          (lang (times 2 (Atom (Range CHR ''a'' CHR ''z'')))) \<longleftrightarrow> m \<in> {m. month_form m}"
    unfolding lang.simps(3) lang_times_atom month_form_iff
    by (cases m) (simp_all only: conc_atom_Nil conc_atom_Cons low is_upper_def mem_Collect_eq, auto)
qed

lemma conc_assoc: "conc (conc A B) C = conc A (conc B C)"
proof (rule set_eqI)
  fix w
  show "w \<in> conc (conc A B) C \<longleftrightarrow> w \<in> conc A (conc B C)"
    unfolding conc_iff by (metis append.assoc)
qed

lemma lang_date_pattern:
  "lang date_pattern =
     conc {m. month_form m} (conc {w. w \<noteq> [] \<and> list_all is_space w}
       (conc {d. day_form d} {[], [newline]}))"
proof -
  have sp: "lang (plus (Atom Space)) = {w. w \<noteq> [] \<and> list_all is_space w}"
    by (simp add: lang_plus_atom list_all_iff)
  have dg: "lang (between 1 2 (Atom Digit)) = {d. day_form d}"
    by (simp add: lang_between_atom day_form_def list_all_iff)
  have "lang date_pattern =
      conc (lang (Atom (Range CHR ''A'' CHR ''Z''))) (conc (lang (times 2 (Atom (Range CHR ''a'' CHR ''z''))))
        (conc (lang (plus (Atom Space))) (conc (lang (between 1 2 (Atom Digit))) (lang eos))))"
    by (simp only: date_pattern_def seqs_def foldr.simps o_apply id_apply lang.simps(5) lang.simps(2)
        conc_unit)
  also have "\<dots> = conc (conc (lang (Atom (Range CHR ''A'' CHR ''Z''))) (lang (times 2 (Atom (Range CHR ''a'' CHR ''z'')))))
        (conc (lang (plus (Atom Space))) (conc (lang (between 1 2 (Atom Digit))) (lang eos)))"
    by (simp only: conc_assoc)
  finally show ?thesis by (simp only: lang_month sp dg lang_eos)
qed

lemma is_date_shape:
  "is_date text \<longleftrightarrow>
     (\<exists>m ws d nl. text = m @ ws @ d @ nl \<and> month_form m \<and> ws \<noteq> [] \<and> list_all is_space ws \<and>
        day_form d \<and> (nl = [] \<or> nl = [newline]))"
proof
  assume "is_date text"
  then show "\<exists>m ws d nl. text = m @ ws @ d @ nl \<and> month_form m \<and> ws \<noteq> [] \<and>
      list_all is_space ws \<and> day_form d \<and> (nl = [] \<or> nl = [newline])"
    unfolding is_date_def matches_lang lang_date_pattern conc_iff by auto
next
  assume "\<exists>m ws d nl. text = m @ ws @ d @ nl \<and> month_form m \<and> ws \<noteq> [] \<and>
      list_all is_space ws \<and> day_form d \<and> (nl = [] \<or> nl = [newline])"
  then obtain m ws d nl where t: "text = m @ ws @ d @ nl" and m: "month_form m"
    and ws: "ws \<noteq> []" "list_all is_space ws" and d: "day_form d"
    and nl: "nl = [] \<or> nl = [newline]" by blast
  from d nl have "d @ nl \<in> conc {d. day_form d} {[], [newline]}"
    unfolding conc_iff by blast
  with ws have "ws @ d @ nl \<in> conc {w. w \<noteq> [] \<and> list_all is_space w}
      (conc {d. day_form d} {[], [newline]})"
    unfolding conc_iff [of "ws @ d @ nl"] by blast
  with m have "m @ ws @ d @ nl \<in> lang date_pattern"
    unfolding lang_date_pattern conc_iff [of "m @ ws @ d @ nl"] by blast
  with t show "is_date text" by (simp add: is_date_def matches_lang)
qed

lemma digit_not_space: "is_digit c \<Longrightarrow> \<not> is_space c"
  by (auto simp: is_digit_def is_space_def)

lemma upper_not_space: "is_upper c \<Longrightarrow> \<not> is_space c"
  by (auto simp: is_upper_def is_space_def)

lemma lower_not_space: "is_lower c \<Longrightarrow> \<not> is_space c"
  by (auto simp: is_lower_def is_space_def)

lemma newline_space: "is_space newline"
  by (simp add: newline_def is_space_def)

lemma blank_space: "is_space CHR '' ''"
  by (simp add: is_space_def)

lemma month_form_nospace: "month_form m \<Longrightarrow> nospace m"
  by (auto simp: month_form_def nospace_def upper_not_space lower_not_space split: list.splits)

lemma digits_nospace: "list_all is_digit d \<Longrightarrow> nospace d"
  by (auto simp: nospace_def list_all_iff digit_not_space)

lemma day_form_nospace: "day_form d \<Longrightarrow> nospace d"
  by (simp add: day_form_def digits_nospace)

lemma takeWhile_nospace:
  assumes "nospace a" and "b = [] \<or> is_space (hd b)"
  shows "takeWhile (\<lambda>c. \<not> is_space c) (a @ b) = a"
  using assms by (cases b) (auto simp: nospace_def list_all_iff takeWhile_tail)

lemma dropWhile_nospace:
  assumes "nospace a" and "b = [] \<or> is_space (hd b)"
  shows "dropWhile (\<lambda>c. \<not> is_space c) (a @ b) = b"
  using assms by (cases b) (auto simp: nospace_def list_all_iff dropWhile_append2)

lemma token_boundary_unique:
  assumes "a @ b = a' @ b'" and "nospace a" and "nospace a'"
    and "b = [] \<or> is_space (hd b)" and "b' = [] \<or> is_space (hd b')"
  shows "a = a' \<and> b = b'"
proof -
  have "takeWhile (\<lambda>c. \<not> is_space c) (a @ b) = a" "dropWhile (\<lambda>c. \<not> is_space c) (a @ b) = b"
    using assms(2,4) by (simp_all add: takeWhile_nospace dropWhile_nospace)
  moreover have "takeWhile (\<lambda>c. \<not> is_space c) (a' @ b') = a'"
    "dropWhile (\<lambda>c. \<not> is_space c) (a' @ b') = b'"
    using assms(3,5) by (simp_all add: takeWhile_nospace dropWhile_nospace)
  ultimately show ?thesis using assms(1) by simp
qed

lemma dropWhile_spaces:
  assumes "list_all is_space ws" and "nospace d"
  shows "dropWhile is_space (ws @ d) = d"
proof -
  have "dropWhile is_space d = d"
    using assms(2) by (cases d) (auto simp: nospace_def)
  with assms(1) show ?thesis by (simp add: dropWhile_append2 list_all_iff)
qed

lemma is_date_tokens:
  assumes "nospace a" and "nospace b"
  shows "is_date (a @ '' '' @ b) \<longleftrightarrow> month_form a \<and> day_form b"
proof
  assume "is_date (a @ '' '' @ b)"
  then obtain m ws d nl where t: "a @ '' '' @ b = m @ ws @ d @ nl" and m: "month_form m"
    and ws: "ws \<noteq> []" "list_all is_space ws" and d: "day_form d"
    and nl: "nl = [] \<or> nl = [newline]"
    unfolding is_date_shape by blast
  from ws have hd_ws: "is_space (hd (ws @ d @ nl))" by (cases ws) auto
  have "a = m \<and> '' '' @ b = ws @ d @ nl"
    using t assms(1) month_form_nospace [OF m] hd_ws
    by (intro token_boundary_unique) (auto simp: blank_space)
  then have am: "a = m" and rest: "CHR '' '' # b = ws @ d @ nl" by simp_all
  have "dropWhile is_space b = b"
    using assms(2) by (cases b) (auto simp: nospace_def)
  then have b1: "dropWhile is_space (CHR '' '' # b) = b"
    by (simp add: blank_space)
  have b2: "dropWhile is_space (ws @ d @ nl) = b"
    using b1 unfolding rest .
  have c1: "dropWhile is_space (ws @ d) = d"
    using dropWhile_spaces [OF ws(2) day_form_nospace [OF d]] .
  have c2: "dropWhile is_space (ws @ d @ [newline]) = d @ [newline]"
  proof -
    from d obtain x xs where "d = x # xs" "\<not> is_space x"
      by (cases d) (auto simp: day_form_def digit_not_space)
    then have "dropWhile is_space (d @ [newline]) = d @ [newline]" by simp
    with ws(2) show ?thesis by (simp add: dropWhile_append2 list_all_iff)
  qed
  have "b = d \<or> b = d @ [newline]"
  proof (cases "nl = []")
    case True
    have "dropWhile is_space (ws @ d) = b"
      using b2 unfolding True by (simp only: append_Nil2)
    then have "b = d" by (simp only: c1)
    then show ?thesis by (rule disjI1)
  next
    case False
    with nl have n: "nl = [newline]" by simp
    have "dropWhile is_space (ws @ d @ [newline]) = b"
      using b2 unfolding n .
    then have "b = d @ [newline]" by (simp only: c2)
    then show ?thesis by (rule disjI2)
  qed
  moreover have "b \<noteq> d @ [newline]"
    using assms(2) newline_space by (auto simp: nospace_def)
  ultimately show "month_form a \<and> day_form b" using am m d by simp
next
  assume ok: "month_form a \<and> day_form b"
  show "is_date (a @ '' '' @ b)"
    unfolding is_date_shape
    by (rule exI [of _ a], rule exI [of _ "'' ''"], rule exI [of _ b], rule exI [of _ "[]"])
       (simp add: ok blank_space)
qed

lemma conc_single_Nil: "[] \<notin> conc {[x]} B"
  by (auto simp: conc_def)

lemma conc_single_Cons: "c # v \<in> conc {[x]} B \<longleftrightarrow> c = x \<and> v \<in> B"
  by (auto simp: conc_def)

lemma star_prefixed:
  "w \<in> star (conc {[x]} K) \<longleftrightarrow>
     (\<exists>ks. w = concat (map ((#) x) ks) \<and> list_all (\<lambda>k. k \<in> K) ks)"
proof
  assume "w \<in> star (conc {[x]} K)"
  then show "\<exists>ks. w = concat (map ((#) x) ks) \<and> list_all (\<lambda>k. k \<in> K) ks"
  proof (induction rule: star.induct)
    case star_empty
    show ?case by (rule exI [of _ "[]"]) simp
  next
    case (star_app u v)
    from star_app.hyps(1) obtain k where u: "u = x # k" "k \<in> K"
      by (cases u) (auto simp: conc_single_Nil conc_single_Cons)
    from star_app.IH obtain ks where v: "v = concat (map ((#) x) ks)" "list_all (\<lambda>k. k \<in> K) ks"
      by blast
    show ?case by (rule exI [of _ "k # ks"]) (simp add: u v)
  qed
next
  assume "\<exists>ks. w = concat (map ((#) x) ks) \<and> list_all (\<lambda>k. k \<in> K) ks"
  then obtain ks where "w = concat (map ((#) x) ks)" "list_all (\<lambda>k. k \<in> K) ks" by blast
  then show "w \<in> star (conc {[x]} K)"
  proof (induction ks arbitrary: w)
    case Nil
    then show ?case by (simp add: star.star_empty)
  next
    case (Cons k ks)
    have "x # k \<in> conc {[x]} K"
      using Cons.prems(2) by (simp add: conc_single_Cons)
    moreover have "concat (map ((#) x) ks) \<in> star (conc {[x]} K)"
      using Cons.IH Cons.prems(2) by simp
    ultimately have "(x # k) @ concat (map ((#) x) ks) \<in> star (conc {[x]} K)"
      by (rule star.star_app)
    with Cons.prems(1) show ?case by simp
  qed
qed

lemma lang_lit: "lang (Atom (Lit x)) = {[x]}"
  by simp

lemma lang_digits_times: "lang (times n (Atom Digit)) = {g. group_form n n g}"
  by (auto simp: lang_times_atom group_form_def list_all_iff)

lemma lang_digits_between:
  "m \<le> n \<Longrightarrow> lang (between m n (Atom Digit)) = {g. group_form m n g}"
  by (auto simp: lang_between_atom group_form_def list_all_iff)

lemma lang_amount_pattern:
  "lang amount_pattern =
     conc {[CHR ''$'']} (conc {g. group_form 1 3 g}
       (conc (star (conc {[CHR '','']} {g. group_form 3 3 g}))
         (conc {[CHR ''.'']} (conc {g. group_form 2 2 g} {[], [newline]}))))"
  by (simp only: amount_pattern_def seqs_def foldr.simps o_apply id_apply lang.simps(5,6)
      lang.simps(2) conc_unit lang_lit lang_digits_times lang_digits_between lang_eos)

lemma is_amount_shape:
  "is_amount t \<longleftrightarrow>
     (\<exists>g ks f nl. t = CHR ''$'' # g @ concat (map ((#) CHR '','') ks) @ CHR ''.'' # f @ nl \<and>
        group_form 1 3 g \<and> list_all (group_form 3 3) ks \<and> group_form 2 2 f \<and>
        (nl = [] \<or> nl = [newline]))"
proof
  assume "is_amount t"
  then have "t \<in> lang amount_pattern" by (simp add: is_amount_def matches_lang)
  then obtain t1 where t: "t = CHR ''$'' # t1" and t1: "t1 \<in> conc {g. group_form 1 3 g}
       (conc (star (conc {[CHR '','']} {g. group_form 3 3 g}))
         (conc {[CHR ''.'']} (conc {g. group_form 2 2 g} {[], [newline]})))"
    unfolding lang_amount_pattern by (cases t) (auto simp: conc_single_Nil conc_single_Cons)
  from t1 obtain g t2 where g: "t1 = g @ t2" "group_form 1 3 g"
    and t2: "t2 \<in> conc (star (conc {[CHR '','']} {g. group_form 3 3 g}))
         (conc {[CHR ''.'']} (conc {g. group_form 2 2 g} {[], [newline]}))"
    unfolding conc_iff [of t1] by blast
  from t2 obtain s t3 where s: "t2 = s @ t3"
    "s \<in> star (conc {[CHR '','']} {g. group_form 3 3 g})"
    and t3: "t3 \<in> conc {[CHR ''.'']} (conc {g. group_form 2 2 g} {[], [newline]})"
    unfolding conc_iff [of t2] by blast
  from s(2) obtain ks where ks: "s = concat (map ((#) CHR '','') ks)"
    "list_all (group_form 3 3) ks"
    unfolding star_prefixed by auto
  from t3 obtain t4 where t4: "t3 = CHR ''.'' # t4"
    "t4 \<in> conc {g. group_form 2 2 g} {[], [newline]}"
    by (cases t3) (auto simp: conc_single_Nil conc_single_Cons)
  from t4(2) obtain f nl where f: "t4 = f @ nl" "group_form 2 2 f" "nl = [] \<or> nl = [newline]"
    unfolding conc_iff [of t4] by blast
  show "\<exists>g ks f nl. t = CHR ''$'' # g @ concat (map ((#) CHR '','') ks) @ CHR ''.'' # f @ nl \<and>
        group_form 1 3 g \<and> list_all (group_form 3 3) ks \<and> group_form 2 2 f \<and>
        (nl = [] \<or> nl = [newline])"
    by (rule exI [of _ g], rule exI [of _ ks], rule exI [of _ f], rule exI [of _ nl])
       (use t g s ks t4 f in simp)
next
  assume "\<exists>g ks f nl. t = CHR ''$'' # g @ concat (map ((#) CHR '','') ks) @ CHR ''.'' # f @ nl \<and>
        group_form 1 3 g \<and> list_all (group_form 3 3) ks \<and> group_form 2 2 f \<and>
        (nl = [] \<or> nl = [newline])"
  then obtain g ks f nl where t: "t = CHR ''$'' # g @ concat (map ((#) CHR '','') ks) @ CHR ''.'' # f @ nl"
    and g: "group_form 1 3 g" and ks: "list_all (group_form 3 3) ks" and f: "group_form 2 2 f"
    and nl: "nl = [] \<or> nl = [newline]" by blast
  have a: "f @ nl \<in> conc {g. group_form 2 2 g} {[], [newline]}"
    unfolding conc_iff [of "f @ nl"] using f nl by blast
  then have b: "CHR ''.'' # f @ nl \<in>
      conc {[CHR ''.'']} (conc {g. group_form 2 2 g} {[], [newline]})"
    by (simp add: conc_single_Cons)
  have "concat (map ((#) CHR '','') ks) \<in> star (conc {[CHR '','']} {g. group_form 3 3 g})"
    unfolding star_prefixed
    by (rule exI [of _ ks]) (use ks in \<open>simp add: list_all_iff\<close>)
  with b have c: "concat (map ((#) CHR '','') ks) @ CHR ''.'' # f @ nl \<in>
      conc (star (conc {[CHR '','']} {g. group_form 3 3 g}))
         (conc {[CHR ''.'']} (conc {g. group_form 2 2 g} {[], [newline]}))"
    unfolding conc_iff [of "concat (map ((#) CHR '','') ks) @ CHR ''.'' # f @ nl"] by blast
  with g have "g @ concat (map ((#) CHR '','') ks) @ CHR ''.'' # f @ nl \<in>
      conc {g. group_form 1 3 g} (conc (star (conc {[CHR '','']} {g. group_form 3 3 g}))
         (conc {[CHR ''.'']} (conc {g. group_form 2 2 g} {[], [newline]})))"
    unfolding conc_iff [of "g @ concat (map ((#) CHR '','') ks) @ CHR ''.'' # f @ nl"] by blast
  then have "t \<in> lang amount_pattern"
    unfolding lang_amount_pattern t by (simp add: conc_single_Cons)
  then show "is_amount t" by (simp add: is_amount_def matches_lang)
qed

section \<open>Tokens\<close>

lemma split_from_tokens:
  "nospace cur \<Longrightarrow> t \<in> set (split_from cur s) \<Longrightarrow> t \<noteq> [] \<and> nospace t"
proof (induction s arbitrary: cur)
  case Nil
  then show ?case by (auto split: if_splits)
next
  case (Cons c cs)
  have e: "nospace []" by (simp add: nospace_def)
  show ?case
  proof (cases "is_space c")
    case True
    with Cons.prems Cons.IH [OF e] show ?thesis by (auto split: if_splits)
  next
    case False
    with Cons.prems(1) have "nospace (cur @ [c])" by (simp add: nospace_def)
    with Cons.prems(2) False Cons.IH [of "cur @ [c]"] show ?thesis by simp
  qed
qed

lemma py_split_tokens: "t \<in> set (py_split s) \<Longrightarrow> t \<noteq> [] \<and> nospace t"
  unfolding py_split_def by (rule split_from_tokens) (simp_all add: nospace_def)

lemma split_on_from_skip:
  "sep \<notin> set w \<Longrightarrow> split_on_from sep cur (w @ rest) = split_on_from sep (cur @ w) rest"
  by (induction w arbitrary: cur) auto

lemma split_on_chunks:
  "sep \<notin> set g \<Longrightarrow> \<forall>k \<in> set ks. sep \<notin> set k \<Longrightarrow>
     split_on_from sep cur (g @ concat (map ((#) sep) ks)) = (cur @ g) # ks"
proof (induction ks arbitrary: cur g)
  case Nil
  then show ?case using split_on_from_skip [of sep g cur "[]"] by simp
next
  case (Cons k ks)
  have "split_on_from sep cur (g @ concat (map ((#) sep) (k # ks))) =
        split_on_from sep (cur @ g) (sep # k @ concat (map ((#) sep) ks))"
    using split_on_from_skip [of sep g cur] Cons.prems(1) by simp
  also have "\<dots> = (cur @ g) # split_on_from sep [] (k @ concat (map ((#) sep) ks))"
    by simp
  also have "split_on_from sep [] (k @ concat (map ((#) sep) ks)) = ([] @ k) # ks"
    using Cons.prems(2) by (intro Cons.IH) simp_all
  finally show ?case by simp
qed

lemma split_on_from_nonempty: "split_on_from sep cur s \<noteq> []"
  by (induction s arbitrary: cur) auto

lemma split_on_from_join:
  "split_on_from sep cur s = h # rest \<Longrightarrow> cur @ s = h @ concat (map ((#) sep) rest)"
proof (induction s arbitrary: cur h rest)
  case Nil
  then show ?case by simp
next
  case (Cons c cs)
  show ?case
  proof (cases "c = sep")
    case True
    with Cons.prems have h: "h = cur" and r: "rest = split_on_from sep [] cs" by simp_all
    obtain h' rest' where s: "split_on_from sep [] cs = h' # rest'"
      using split_on_from_nonempty [of sep "[]" cs] by (cases "split_on_from sep [] cs") auto
    from Cons.IH [OF s] have "cs = h' @ concat (map ((#) sep) rest')" by simp
    with h r s True show ?thesis by simp
  next
    case False
    with Cons.prems have "split_on_from sep (cur @ [c]) cs = h # rest" by simp
    from Cons.IH [OF this] show ?thesis by simp
  qed
qed

lemma digit_not_comma: "is_digit c \<Longrightarrow> c \<noteq> CHR '',''"
  by (auto simp: is_digit_def)

lemma group_no_comma: "group_form lo hi g \<Longrightarrow> CHR '','' \<notin> set g"
  by (auto simp: group_form_def list_all_iff dest: digit_not_comma)

lemma is_amount_tokens:
  "is_amount t \<and> (t = [] \<or> last t \<noteq> newline) \<longleftrightarrow>
     (\<exists>g ks f. t = CHR ''$'' # g @ concat (map ((#) CHR '','') ks) @ CHR ''.'' # f \<and>
        group_form 1 3 g \<and> list_all (group_form 3 3) ks \<and> group_form 2 2 f)"
proof
  assume a: "is_amount t \<and> (t = [] \<or> last t \<noteq> newline)"
  then obtain g ks f nl where
    t: "t = CHR ''$'' # g @ concat (map ((#) CHR '','') ks) @ CHR ''.'' # f @ nl"
    and g: "group_form 1 3 g" "list_all (group_form 3 3) ks" "group_form 2 2 f"
    and nl: "nl = [] \<or> nl = [newline]"
    unfolding is_amount_shape by blast
  have "nl \<noteq> [newline]"
  proof
    assume "nl = [newline]"
    with t have "last t = newline" by simp
    with a t show False by simp
  qed
  with nl have "nl = []" by simp
  show "\<exists>g ks f. t = CHR ''$'' # g @ concat (map ((#) CHR '','') ks) @ CHR ''.'' # f \<and>
        group_form 1 3 g \<and> list_all (group_form 3 3) ks \<and> group_form 2 2 f"
    by (rule exI [of _ g], rule exI [of _ ks], rule exI [of _ f])
       (use t g \<open>nl = []\<close> in simp)
next
  assume "\<exists>g ks f. t = CHR ''$'' # g @ concat (map ((#) CHR '','') ks) @ CHR ''.'' # f \<and>
        group_form 1 3 g \<and> list_all (group_form 3 3) ks \<and> group_form 2 2 f"
  then obtain g ks f where
    t: "t = CHR ''$'' # g @ concat (map ((#) CHR '','') ks) @ CHR ''.'' # f"
    and g: "group_form 1 3 g" "list_all (group_form 3 3) ks" "group_form 2 2 f"
    by blast
  have "is_amount t"
    unfolding is_amount_shape
    by (rule exI [of _ g], rule exI [of _ ks], rule exI [of _ f], rule exI [of _ "[]"])
       (use t g in simp)
  moreover from g(3) obtain a b where f: "f = [a, b]" "is_digit b"
    by (cases f; cases "tl f") (auto simp: group_form_def)
  have "last t = b" using t f by simp
  then have "last t \<noteq> newline"
    using f(2) digit_not_space newline_space by auto
  ultimately show "is_amount t \<and> (t = [] \<or> last t \<noteq> newline)" by simp
qed

lemma chunked_amount_iff:
  "chunked_amount chunks_thousands t \<longleftrightarrow>
     (\<exists>g ks f. t = CHR ''$'' # g @ concat (map ((#) CHR '','') ks) @ CHR ''.'' # f \<and>
        group_form 1 3 g \<and> list_all (group_form 3 3) ks \<and> group_form 2 2 f)"
proof
  assume c: "chunked_amount chunks_thousands t"
  then obtain body where t: "t = CHR ''$'' # body" and len: "3 \<le> length body"
    by (cases t) (auto simp: chunked_amount_def)
  define whole where "whole = take (length body - 3) body"
  define frac where "frac = drop (length body - 3) body"
  from c t have dot: "take 1 frac = ''.''" and f2: "group_form 2 2 (drop 1 frac)"
    and ok: "chunks_thousands (split_on CHR '','' whole)"
    by (simp_all add: chunked_amount_def whole_def frac_def Let_def)
  from ok obtain g ks where sp: "split_on_from CHR '','' [] whole = g # ks"
    and g: "group_form 1 3 g" "list_all (group_form 3 3) ks"
    by (auto simp: chunks_thousands_def split_on_def split: list.splits)
  from split_on_from_join [OF sp] have w: "whole = g @ concat (map ((#) CHR '','') ks)" by simp
  from dot have fr: "frac = CHR ''.'' # drop 1 frac" by (cases frac) auto
  have "body = whole @ frac" by (simp add: whole_def frac_def)
  with t w fr have "t = CHR ''$'' # g @ concat (map ((#) CHR '','') ks) @ CHR ''.'' # drop 1 frac"
    by simp
  with g f2 show "\<exists>g ks f. t = CHR ''$'' # g @ concat (map ((#) CHR '','') ks) @ CHR ''.'' # f \<and>
        group_form 1 3 g \<and> list_all (group_form 3 3) ks \<and> group_form 2 2 f"
    by blast
next
  assume "\<exists>g ks f. t = CHR ''$'' # g @ concat (map ((#) CHR '','') ks) @ CHR ''.'' # f \<and>
        group_form 1 3 g \<and> list_all (group_form 3 3) ks \<and> group_form 2 2 f"
  then obtain g ks f where
    t: "t = CHR ''$'' # g @ concat (map ((#) CHR '','') ks) @ CHR ''.'' # f"
    and g: "group_form 1 3 g" "list_all (group_form 3 3) ks" "group_form 2 2 f"
    by blast
  define whole where "whole = g @ concat (map ((#) CHR '','') ks)"
  from g(3) have lf: "length f = 2" by (simp add: group_form_def)
  have sp: "split_on CHR '','' whole = g # ks"
    unfolding split_on_def whole_def
    using split_on_chunks [of "CHR '',''" g ks "[]"] g(1,2)
    by (auto simp: list_all_iff dest: group_no_comma)
  have "chunked_amount chunks_thousands (CHR ''$'' # whole @ CHR ''.'' # f)"
    using lf g sp by (simp add: chunked_amount_def chunks_thousands_def)
  then show "chunked_amount chunks_thousands t"
    by (simp add: t whole_def)
qed

lemma is_amount_chunks:
  "is_amount t \<and> (t = [] \<or> last t \<noteq> newline) \<longleftrightarrow> chunked_amount chunks_thousands t"
  by (simp only: is_amount_tokens chunked_amount_iff)

lemma nospace_last: "nospace t \<Longrightarrow> t = [] \<or> last t \<noteq> newline"
  using newline_space by (cases t rule: rev_cases) (auto simp: nospace_def)

lemma is_amount_chars:
  assumes "is_amount t" and "c \<in> set t"
  shows "c = CHR ''$'' \<or> c = CHR '','' \<or> c = CHR ''.'' \<or> c = newline \<or> is_digit c"
proof -
  from assms(1) obtain g ks f nl where
    t: "t = CHR ''$'' # g @ concat (map ((#) CHR '','') ks) @ CHR ''.'' # f @ nl"
    and g: "group_form 1 3 g" "list_all (group_form 3 3) ks" "group_form 2 2 f"
    and nl: "nl = [] \<or> nl = [newline]"
    unfolding is_amount_shape by blast
  from assms(2) t have "c = CHR ''$'' \<or> c \<in> set g \<or> (\<exists>k \<in> set ks. c = CHR '','' \<or> c \<in> set k)
      \<or> c = CHR ''.'' \<or> c \<in> set f \<or> c \<in> set nl"
    by (auto split: if_splits)
  with g nl show ?thesis
    by (auto simp: group_form_def list_all_iff)
qed

lemma is_amount_no_sign:
  "CHR ''-'' \<in> set t \<or> CHR ''+'' \<in> set t \<Longrightarrow> \<not> is_amount t"
  using is_amount_chars [of t "CHR ''-''"] is_amount_chars [of t "CHR ''+''"]
  by (auto simp: newline_def is_digit_def)

section \<open>Line classification\<close>

lemmas pattern_eval = is_date_def is_amount_def date_pattern_def amount_pattern_def seqs_def
  between_def plus_def eos_def is_digit_def is_space_def numeral_2_eq_2 numeral_3_eq_3

lemmas token_eval = py_split_def is_transaction_line_def chunked_amount_def chunks_thousands_def
  chunks_at_most_3_def group_form_def split_on_def month_form_def day_form_def is_upper_def
  is_lower_def nospace_def is_space_def is_digit_def

text \<open>
  Claim C1. A line, split at white space, is a transaction line exactly when it has at
  least four tokens, its first token is a capital letter followed by two small letters,
  its second token is one or two digits, and its last token is a currency amount. The
  third and fourth token and the tokens before the last are never looked at: replacing
  them changes nothing. A line of fewer than four tokens is never a transaction line.
\<close>

theorem line_classification:
  "(is_transaction_line (py_split line) \<longleftrightarrow>
      4 \<le> length (py_split line) \<and> month_form (py_split line ! 0) \<and>
      day_form (py_split line ! 1) \<and> chunked_amount chunks_thousands (last (py_split line)))
   \<and> is_transaction_line (a # b # c # d # mid @ [amt]) =
       is_transaction_line (a # b # c' # d' # mid' @ [amt])
   \<and> (length parts < 4 \<longrightarrow> \<not> is_transaction_line parts)"
proof (intro conjI)
  show "is_transaction_line (py_split line) \<longleftrightarrow>
      4 \<le> length (py_split line) \<and> month_form (py_split line ! 0) \<and>
      day_form (py_split line ! 1) \<and> chunked_amount chunks_thousands (last (py_split line))"
  proof (cases "4 \<le> length (py_split line)")
    case False
    then show ?thesis by (simp add: is_transaction_line_def)
  next
    case True
    then have "py_split line ! 0 \<in> set (py_split line)" "py_split line ! 1 \<in> set (py_split line)"
      "last (py_split line) \<in> set (py_split line)"
      by (auto intro: nth_mem last_in_set)
    then have ns: "nospace (py_split line ! 0)" "nospace (py_split line ! 1)"
      "nospace (last (py_split line))"
      by (auto dest: py_split_tokens)
    have am: "is_amount (last (py_split line)) \<longleftrightarrow>
        chunked_amount chunks_thousands (last (py_split line))"
      using is_amount_chunks [of "last (py_split line)"] nospace_last [OF ns(3)] by blast
    have dt: "is_date (py_split line ! 0 @ '' '' @ py_split line ! 1) \<longleftrightarrow>
        month_form (py_split line ! 0) \<and> day_form (py_split line ! 1)"
      by (rule is_date_tokens [OF ns(1,2)])
    show ?thesis
      unfolding is_transaction_line_def am dt using True by blast
  qed
next
  show "is_transaction_line (a # b # c # d # mid @ [amt]) =
        is_transaction_line (a # b # c' # d' # mid' @ [amt])"
    by (simp add: is_transaction_line_def)
next
  show "length parts < 4 \<longrightarrow> \<not> is_transaction_line parts"
    by (simp add: is_transaction_line_def)
qed

theorem line_classification_witness:
  "is_transaction_line (py_split ''Jan 5 Jan 6 COFFEE SHOP $4.50'')
   \<and> is_transaction_line [''Jan'', ''5'', ''Jan'', ''6'', ''$4.50''] =
       is_transaction_line [''Jan'', ''5'', ''??'', ''Xy'', ''A'', ''B'', ''$4.50'']
   \<and> length [''Jan'', ''5'', ''$4.50''] < 4 \<and> \<not> is_transaction_line [''Jan'', ''5'', ''$4.50'']"
  using line_classification [of "''Jan 5 Jan 6 COFFEE SHOP $4.50''" "''Jan''" "''5''" "''Jan''" "''6''"
      "[]" "''$4.50''" "''??''" "''Xy''" "[''A'', ''B'']" "[''Jan'', ''5'', ''$4.50'']"]
  by (simp add: token_eval is_space_def is_digit_def)

text \<open>
  Claim C2, amended. On a token (a string without white space) the amount check accepts
  exactly: \<open>$\<close>, a first chunk of one to three digits, then any number of chunks of
  exactly three digits each preceded by a comma, then \<open>.\<close> and exactly two digits. A
  string that contains \<open>-\<close> is rejected.
\<close>

theorem amount_check_exact:
  "(nospace t \<longrightarrow> (is_amount t \<longleftrightarrow> chunked_amount chunks_thousands t))
   \<and> (CHR ''-'' \<in> set t \<longrightarrow> \<not> is_amount t)"
proof (intro conjI impI)
  assume "nospace t"
  then have "t = [] \<or> last t \<noteq> newline" by (rule nospace_last)
  then show "is_amount t \<longleftrightarrow> chunked_amount chunks_thousands t"
    using is_amount_chunks [of t] by blast
next
  assume "CHR ''-'' \<in> set t"
  then show "\<not> is_amount t" by (simp add: is_amount_no_sign)
qed

theorem amount_check_exact_witness:
  "nospace ''$1,234.56'' \<and> is_amount ''$1,234.56'' \<and> chunked_amount chunks_thousands ''$0.00''
   \<and> CHR ''-'' \<in> set ''-$1.00'' \<and> \<not> is_amount ''-$1.00'' \<and> \<not> is_amount ''$-1.00''"
  using amount_check_exact [of "''$1,234.56''"] amount_check_exact [of "''-$1.00''"]
    amount_check_exact [of "''$-1.00''"]
  by (simp add: token_eval is_space_def is_digit_def)

text \<open>
  Claim C2 as stated fails: \<open>$1,23.45\<close> is \<open>$\<close>, digits in comma-separated chunks of
  at most three, \<open>.\<close> and two digits, and the check rejects it.
\<close>

theorem amount_chunks_counterexample:
  "chunked_amount chunks_at_most_3 ''$1,23.45'' \<and> \<not> is_amount ''$1,23.45''"
  by (simp add: token_eval pattern_eval)

section \<open>Amount parsing\<close>

lemma digit_facts:
  "is_digit c \<Longrightarrow> c \<noteq> CHR ''$'' \<and> c \<noteq> CHR '','' \<and> c \<noteq> CHR ''.'' \<and> c \<noteq> CHR ''-''
     \<and> c \<noteq> CHR ''+'' \<and> c \<noteq> newline \<and> \<not> is_space c"
  by (auto simp: is_digit_def newline_def is_space_def)

lemma filter_keep_digits:
  "list_all is_digit w \<Longrightarrow> \<not> is_digit x \<Longrightarrow> filter (\<lambda>c. c \<noteq> x) w = w"
  by (auto simp: list_all_iff intro: filter_True)

lemma filter_comma_chunks:
  "list_all (group_form lo hi) ks \<Longrightarrow>
     filter (\<lambda>c. c \<noteq> CHR '','') (concat (map ((#) CHR '','') ks)) = concat ks
     \<and> filter (\<lambda>c. c \<noteq> CHR ''$'') (concat (map ((#) CHR '','') ks)) = concat (map ((#) CHR '','') ks)
     \<and> filter is_digit (concat (map ((#) CHR '','') ks)) = concat ks
     \<and> list_all is_digit (concat ks)"
proof (induction ks)
  case Nil
  then show ?case by simp
next
  case (Cons k ks)
  then have k: "list_all is_digit k" by (simp add: group_form_def)
  have nd: "\<not> is_digit CHR '',''" "\<not> is_digit CHR ''$''" by (simp_all add: is_digit_def)
  with k have "filter (\<lambda>c. c \<noteq> CHR '','') k = k" "filter (\<lambda>c. c \<noteq> CHR ''$'') k = k"
    by (simp_all add: filter_keep_digits)
  moreover from k have "filter is_digit k = k" by (auto simp: list_all_iff intro: filter_True)
  ultimately show ?case using Cons k nd by simp
qed

lemma amount_digits:
  assumes "is_amount t"
  shows "\<exists>D f nl. D \<noteq> [] \<and> list_all is_digit D \<and> length f = 2 \<and> list_all is_digit f \<and>
           (nl = [] \<or> nl = [newline]) \<and>
           filter (\<lambda>c. c \<noteq> CHR '','') (filter (\<lambda>c. c \<noteq> CHR ''$'') t) = D @ CHR ''.'' # f @ nl \<and>
           filter is_digit t = D @ f"
proof -
  from assms obtain g ks f nl where
    t: "t = CHR ''$'' # g @ concat (map ((#) CHR '','') ks) @ CHR ''.'' # f @ nl"
    and g: "group_form 1 3 g" and ks: "list_all (group_form 3 3) ks" and f: "group_form 2 2 f"
    and nl: "nl = [] \<or> nl = [newline]"
    unfolding is_amount_shape by blast
  note c = filter_comma_chunks [OF ks]
  have nd: "\<not> is_digit CHR '',''" "\<not> is_digit CHR ''$''" "\<not> is_digit CHR ''.''" "\<not> is_digit newline"
    by (simp_all add: is_digit_def newline_def)
  from g have gd: "list_all is_digit g" "g \<noteq> []" by (auto simp: group_form_def)
  from f have fd: "list_all is_digit f" "length f = 2" by (auto simp: group_form_def)
  have fg: "filter (\<lambda>c. c \<noteq> CHR '','') g = g" "filter (\<lambda>c. c \<noteq> CHR ''$'') g = g"
    "filter is_digit g = g"
    using gd nd by (auto simp: filter_keep_digits list_all_iff intro: filter_True)
  have ff: "filter (\<lambda>c. c \<noteq> CHR '','') f = f" "filter (\<lambda>c. c \<noteq> CHR ''$'') f = f"
    "filter is_digit f = f"
    using fd nd by (auto simp: filter_keep_digits list_all_iff intro: filter_True)
  have fn: "filter (\<lambda>c. c \<noteq> CHR '','') nl = nl" "filter (\<lambda>c. c \<noteq> CHR ''$'') nl = nl"
    "filter is_digit nl = []"
    using nl nd by (auto simp: newline_def)
  have 1: "filter (\<lambda>c. c \<noteq> CHR '','') (filter (\<lambda>c. c \<noteq> CHR ''$'') t) =
      (g @ concat ks) @ CHR ''.'' # f @ nl"
    by (simp add: t fg ff fn c)
  have 2: "filter is_digit t = (g @ concat ks) @ f"
    using nd by (simp add: t fg ff fn c)
  show ?thesis
    by (rule exI [of _ "g @ concat ks"], rule exI [of _ f], rule exI [of _ nl])
       (use 1 2 gd fd nl c in simp)
qed

lemma strip_decimal:
  assumes "D \<noteq> []" "list_all is_digit D" "list_all is_digit f" "nl = [] \<or> nl = [newline]"
  shows "strip (D @ CHR ''.'' # f @ nl) = D @ CHR ''.'' # f"
proof -
  from assms(1,2) obtain d D' where D: "D = d # D'" "\<not> is_space d"
    by (cases D) (auto simp: digit_facts)
  have a: "dropWhile is_space (D @ CHR ''.'' # f @ nl) = D @ CHR ''.'' # f @ nl"
    by (simp add: D)
  have dot: "\<not> is_space CHR ''.''" by (simp add: is_space_def)
  have b: "dropWhile is_space (rev nl @ rev f @ CHR ''.'' # rev D) = rev f @ CHR ''.'' # rev D"
  proof -
    have "dropWhile is_space (rev f @ CHR ''.'' # rev D) = rev f @ CHR ''.'' # rev D"
      using assms(3) dot by (cases f rule: rev_cases) (auto simp: digit_facts)
    with assms(4) show ?thesis by (auto simp: newline_space)
  qed
  show ?thesis
    unfolding strip_def a using b by simp
qed

lemma py_float_decimal:
  assumes "D \<noteq> []" "list_all is_digit D" "list_all is_digit f" "nl = [] \<or> nl = [newline]"
  shows "py_float (D @ CHR ''.'' # f @ nl) =
         Inr (nearest_double (digits_value (D @ f)) (10 ^ length f))"
proof -
  from assms(1,2) obtain d D' where D: "D = d # D'" "d \<noteq> CHR ''-''" "d \<noteq> CHR ''+''"
    by (cases D) (auto simp: digit_facts)
  have nodot: "\<forall>c \<in> set D. c \<noteq> CHR ''.''"
    using assms(2) by (auto simp: list_all_iff digit_facts)
  have tw: "takeWhile (\<lambda>c. c \<noteq> CHR ''.'') (D @ CHR ''.'' # f) = D"
    using nodot by (simp add: takeWhile_tail)
  have dw: "dropWhile (\<lambda>c. c \<noteq> CHR ''.'') (D @ CHR ''.'' # f) = CHR ''.'' # f"
    using nodot by (simp add: dropWhile_append2)
  have u: "(case D @ CHR ''.'' # f of [] \<Rightarrow> (False, [])
            | c # r \<Rightarrow> if c = CHR ''-'' then (True, r)
                       else if c = CHR ''+'' then (False, r) else (False, D @ CHR ''.'' # f))
           = (False, D @ CHR ''.'' # f)"
    by (simp add: D)
  show ?thesis
    unfolding py_float_def strip_decimal [OF assms] Let_def u
    using assms by (simp add: tw dw)
qed

lemma parse_amount_value:
  assumes "is_amount t"
  shows "parse_amount t = Inr (nearest_double (amount_cents t) 100)"
proof -
  from amount_digits [OF assms] obtain D f nl where
    d: "D \<noteq> []" "list_all is_digit D" "length f = 2" "list_all is_digit f"
    "nl = [] \<or> nl = [newline]"
    and s: "filter (\<lambda>c. c \<noteq> CHR '','') (filter (\<lambda>c. c \<noteq> CHR ''$'') t) = D @ CHR ''.'' # f @ nl"
    and v: "filter is_digit t = D @ f"
    by blast
  show ?thesis
    unfolding parse_amount_def s amount_cents_def v
    using py_float_decimal [OF d(1,2,4,5)] d(3) by simp
qed

text \<open>Rounding half to even is within half a unit, and a quotient that close is the result.\<close>

lemma rhe_error:
  assumes "0 < b"
  shows "2 * \<bar>int (round_half_even a b) * int b - int a\<bar> \<le> int b"
proof -
  define q r where "q = a div b" and "r = a mod b"
  have "a = q * b + r" by (simp add: q_def r_def)
  then have "int a = int (q * b + r)" by (rule arg_cong)
  then have ia: "int a = int q * int b + int r" by simp
  have r: "int r < int b" using assms by (simp add: r_def)
  have m: "round_half_even a b = q \<and> 2 * int r \<le> int b
         \<or> round_half_even a b = q + 1 \<and> int b \<le> 2 * int r"
    unfolding round_half_even_def Let_def q_def [symmetric] r_def [symmetric]
    by (auto simp: not_less) 
  then show ?thesis
  proof
    assume "round_half_even a b = q \<and> 2 * int r \<le> int b"
    then show ?thesis by (simp add: ia)
  next
    assume h: "round_half_even a b = q + 1 \<and> int b \<le> 2 * int r"
    then have "int (round_half_even a b) * int b - int a = int b - int r"
      by (simp add: ia algebra_simps)
    with h r show ?thesis by simp
  qed
qed

lemma rhe_unique:
  assumes "0 < d" and "2 * \<bar>int n - int q * int d\<bar> < int d"
  shows "round_half_even n d = q"
proof (rule ccontr)
  assume ne: "round_half_even n d \<noteq> q"
  define m where "m = round_half_even n d"
  have e: "2 * \<bar>int m * int d - int n\<bar> \<le> int d"
    unfolding m_def by (rule rhe_error [OF assms(1)])
  have tri: "\<bar>x - y\<bar> < w" if "2 * \<bar>x - c\<bar> \<le> w" "2 * \<bar>c - y\<bar> < w" for x y c w :: int
  proof -
    have "\<bar>(x - c) + (c - y)\<bar> \<le> \<bar>x - c\<bar> + \<bar>c - y\<bar>" by (rule abs_triangle_ineq)
    then have "\<bar>x - y\<bar> \<le> \<bar>x - c\<bar> + \<bar>c - y\<bar>" by simp
    moreover have "t \<le> u + v \<Longrightarrow> 2 * u \<le> w \<Longrightarrow> 2 * v < w \<Longrightarrow> t < w" for t u v :: int
      by linarith
    ultimately show ?thesis using that by blast
  qed
  have "\<bar>int m * int d - int q * int d\<bar> < int d"
    using e assms(2) by (rule tri)
  moreover have "int m * int d - int q * int d = (int m - int q) * int d"
    by (simp add: algebra_simps)
  moreover have "1 \<le> \<bar>int m - int q\<bar>" using ne by (simp add: m_def)
  then have "int d \<le> \<bar>int m - int q\<bar> * int d"
    using assms(1) by (simp add: mult_le_cancel_right1)
  ultimately show False by (simp add: abs_mult)
qed

lemma shift_up_spec:
  "shift_up a b k = (a', k') \<Longrightarrow>
     k \<le> k' \<and> a' = a * 2 ^ (k' - k) \<and> (2 ^ 52 * b \<le> a' \<or> 1074 \<le> k') \<and>
     (a < 2 ^ 53 * b \<longrightarrow> a' < 2 ^ 53 * b)"
proof (induction a b k rule: shift_up.induct)
  case (1 a b k)
  show ?case
  proof (cases "a < 2 ^ 52 * b \<and> k < 1074")
    case True
    have "shift_up a b k = shift_up (2 * a) b (Suc k)"
      by (subst shift_up.simps) (simp only: True simp_thms if_True)
    with "1.prems" have s: "shift_up (2 * a) b (Suc k) = (a', k')" by simp
    from "1.IH" [OF True s] have ih: "Suc k \<le> k'" "a' = 2 * a * 2 ^ (k' - Suc k)"
      "2 ^ 52 * b \<le> a' \<or> 1074 \<le> k'" "2 * a < 2 ^ 53 * b \<longrightarrow> a' < 2 ^ 53 * b"
      by blast+
    from ih(1) have pw: "(2::nat) ^ (k' - k) = 2 * 2 ^ (k' - Suc k)"
      by (metis Suc_diff_le diff_Suc_Suc power_Suc)
    from True have "2 * a < 2 ^ 53 * b" by simp
    with ih(4) have lt: "a' < 2 ^ 53 * b" by blast
    have eq: "a' = a * 2 ^ (k' - k)" by (simp only: ih(2) pw mult_ac)
    from ih(1) have le: "k \<le> k'" by simp
    from le eq ih(3) lt show ?thesis by blast
  next
    case False
    have "shift_up a b k = (a, k)"
      by (subst shift_up.simps) (simp only: False simp_thms if_False)
    with "1.prems" have ak: "a' = a" "k' = k" by simp_all
    from False have "2 ^ 52 * b \<le> a \<or> 1074 \<le> k" by (simp only: not_less de_Morgan_conj)
    with ak show ?thesis by simp
  qed
qed

lemma shift_down_fixed: "a < 2 ^ 53 * b \<Longrightarrow> shift_down a b j = (b, j)"
  by (subst shift_down.simps) (simp only: not_le [symmetric] simp_thms if_False)

lemma normalise_small:
  assumes "0 < a" and "a < 2 ^ 46 * b"
  shows "\<exists>k. 7 \<le> k \<and> normalise a b = (a * 2 ^ k, b, - int k)"
proof -
  obtain a' k where s: "shift_up a b 0 = (a', k)" by (cases "shift_up a b 0")
  from assms(2) have lt: "a < 2 ^ 53 * b" by simp
  from shift_up_spec [OF s] have sp0: "a' = a * 2 ^ (k - 0)" "2 ^ 52 * b \<le> a' \<or> 1074 \<le> k"
    "a < 2 ^ 53 * b \<longrightarrow> a' < 2 ^ 53 * b"
    by blast+
  from sp0(1) have sp1: "a' = a * 2 ^ k" by simp
  from sp0(3) lt have sp3: "a' < 2 ^ 53 * b" by blast
  note sp = sp1 sp0(2) sp3
  have k: "7 \<le> k"
  proof (rule ccontr)
    assume "\<not> 7 \<le> k"
    then have k6: "k \<le> 6" by simp
    then have "(2::nat) ^ k \<le> 2 ^ 6" by (intro power_increasing) simp_all
    then have "a * 2 ^ k \<le> a * 2 ^ 6" by simp
    also have "\<dots> < 2 ^ 46 * b * 2 ^ 6" using assms(2) by simp
    also have "\<dots> = 2 ^ 52 * b" by simp
    finally have "a' < 2 ^ 52 * b" by (simp add: sp(1))
    with sp(2) k6 show False by simp
  qed
  have "normalise a b = (a * 2 ^ k, b, - int k)"
    unfolding normalise_def s using shift_down_fixed [OF sp(3)] by (simp add: sp(1))
  with k show ?thesis by blast
qed

lemma nearest_cents_exact:
  assumes "a < 100 * 2 ^ 46"
  shows "nearest_cents (nearest_double a 100) = Some (int a)"
proof (cases "a = 0")
  case True
  then show ?thesis by (simp add: nearest_double_def)
next
  case False
  then have "0 < a" by simp
  moreover from assms have "a < 2 ^ 46 * 100" by simp
  ultimately obtain k where k: "7 \<le> k" and n: "normalise a 100 = (a * 2 ^ k, 100, - int k)"
    using normalise_small [of a 100] by blast
  define m where "m = round_half_even (a * 2 ^ k) 100"
  have nd: "nearest_double a 100 = pack m (- int k)"
    using False by (simp add: nearest_double_def n m_def)
  have err: "2 * \<bar>int m * 100 - int a * 2 ^ k\<bar> \<le> 100"
    using rhe_error [of 100 "a * 2 ^ k"] by (simp add: m_def)
  have big: "(128::int) \<le> 2 ^ k"
    using power_increasing [OF k, of "2::int"] by simp
  show ?thesis
  proof (cases "m = 2 ^ 53")
    case True
    obtain j where j: "k = Suc j" using k by (cases k) auto
    with k have j6: "6 \<le> j" by simp
    have big': "(64::int) \<le> 2 ^ j"
      using power_increasing [OF j6, of "2::int"] by simp
    have p: "pack m (- int k) = Fin (2 ^ 52) (- int j)"
      using True j by (simp add: pack_def)
    define x where "x = int a * 2 ^ j"
    have "int a * 2 ^ k = 2 * x" by (simp add: j x_def)
    with err True have "2 * \<bar>(2 ^ 53 :: int) * 100 - 2 * x\<bar> \<le> 100" by simp
    then have "2 * \<bar>(2 ^ 52 :: int) * 100 - x\<bar> < 64" by simp
    then have "2 * \<bar>(2 ^ 52 :: int) * 100 - x\<bar> < 2 ^ j" using big' by (rule less_le_trans)
    then have "2 * \<bar>int (100 * 2 ^ 52) - int a * int (2 ^ j)\<bar> < int (2 ^ j)"
      by (simp add: x_def)
    then have "round_half_even (100 * 2 ^ 52) (2 ^ j) = a"
      by (intro rhe_unique) simp_all
    then show ?thesis
      using j6 by (simp add: nd p nat_power_eq)
  next
    case False
    have p: "pack m (- int k) = Fin (int m) (- int k)"
      using False k by (simp add: pack_def)
    define x where "x = int a * 2 ^ k"
    define y where "y = int m * 100"
    from err have "2 * \<bar>y - x\<bar> \<le> 100" by (simp add: x_def y_def)
    also have "(100::int) < 128" by simp
    also note big
    finally have "2 * \<bar>y - x\<bar> < 2 ^ k" .
    then have "2 * \<bar>int (100 * m) - int a * int (2 ^ k)\<bar> < int (2 ^ k)"
      by (simp add: x_def y_def mult.commute)
    then have "round_half_even (100 * m) (2 ^ k) = a"
      by (intro rhe_unique) simp_all
    then show ?thesis
      using k by (simp add: nd p)
  qed
qed

lemmas float_eval = parse_amount_def py_float_def strip_def is_space_def is_digit_def
  digits_value_def digit_val_def nearest_double_def normalise_def pack_def round_half_even_def
  shift_up.simps shift_down.simps amount_cents_def

text \<open>
  Claim C4, amended. For every token the amount check accepts, \<open>parse_amount\<close> removes
  \<open>$\<close> and the commas and returns the binary64 float nearest to the decimal number that
  remains; \<open>$1,234.56\<close> gives the float nearest to 1234.56 and \<open>$0.00\<close> gives 0.0. The
  result is rounded to 53 bits. For an amount below \<open>2 ^ 46\<close> the float still determines
  the source amount to the cent: rounding 100 times the float to the nearest integer
  gives back the cents of the token.
\<close>

theorem parse_amount_nearest_double:
  "(is_amount t \<longrightarrow>
      parse_amount t = Inr (nearest_double (amount_cents t) 100) \<and>
      (amount_cents t < 100 * 2 ^ 46 \<longrightarrow>
         nearest_cents (nearest_double (amount_cents t) 100) = Some (int (amount_cents t))))
   \<and> parse_amount ''$1,234.56'' = Inr (Fin 5429652300748554 (- 42))
   \<and> parse_amount ''$0.00'' = Inr (Fin 0 0)"
proof (intro conjI impI)
  assume "is_amount t"
  then show "parse_amount t = Inr (nearest_double (amount_cents t) 100)"
    by (rule parse_amount_value)
next
  assume "amount_cents t < 100 * 2 ^ 46"
  then show "nearest_cents (nearest_double (amount_cents t) 100) = Some (int (amount_cents t))"
    by (rule nearest_cents_exact)
next
  show "parse_amount ''$1,234.56'' = Inr (Fin 5429652300748554 (- 42))"
    by (simp add: float_eval)
next
  show "parse_amount ''$0.00'' = Inr (Fin 0 0)"
    by (simp add: float_eval)
qed

theorem parse_amount_nearest_double_witness:
  "is_amount ''$1,234.56'' \<and> amount_cents ''$1,234.56'' = 123456 \<and>
   parse_amount ''$1,234.56'' = Inr (nearest_double 123456 100) \<and>
   (123456::nat) < 100 * 2 ^ 46 \<and> nearest_cents (nearest_double 123456 100) = Some 123456"
proof -
  have a: "is_amount ''$1,234.56''" by (simp add: pattern_eval)
  have c: "amount_cents ''$1,234.56'' = 123456" by (simp add: float_eval)
  have b: "(123456::nat) < 100 * 2 ^ 46" by simp
  from parse_amount_nearest_double [of "''$1,234.56''"] a b show ?thesis
    unfolding c by simp
qed

text \<open>
  Claim C4 as stated fails: the accepted token \<open>$99,999,999,999,999.99\<close> is parsed to the
  float \<open>6399999999999999 / 64\<close>, whose nearest cent ends in 98; it is the float to which
  \<open>$99,999,999,999,999.98\<close> is parsed as well.
\<close>

theorem parse_amount_rounds_counterexample:
  "is_amount ''$99,999,999,999,999.99'' \<and>
   amount_cents ''$99,999,999,999,999.99'' = 9999999999999999 \<and>
   parse_amount ''$99,999,999,999,999.99'' = Inr (Fin 6399999999999999 (- 6)) \<and>
   nearest_cents (Fin 6399999999999999 (- 6)) = Some 9999999999999998 \<and>
   parse_amount ''$99,999,999,999,999.98'' = Inr (Fin 6399999999999999 (- 6))"
proof (intro conjI)
  show "is_amount ''$99,999,999,999,999.99''" by (simp add: pattern_eval)
  show "amount_cents ''$99,999,999,999,999.99'' = 9999999999999999" by (simp add: float_eval)
  show "parse_amount ''$99,999,999,999,999.99'' = Inr (Fin 6399999999999999 (- 6))"
    by (simp add: float_eval)
  show "nearest_cents (Fin 6399999999999999 (- 6)) = Some 9999999999999998"
    by (simp add: round_half_even_def)
  show "parse_amount ''$99,999,999,999,999.98'' = Inr (Fin 6399999999999999 (- 6))"
    by (simp add: float_eval)
qed

section \<open>Building a transaction\<close>





lemma slice_tokens:
  assumes "4 \<le> length ts"
  shows "py_slice ts 0 2 = [ts ! 0, ts ! 1]" "py_slice ts 2 4 = [ts ! 2, ts ! 3]"
    "py_slice ts 4 (- 1) = map ((!) ts) [4 ..< length ts - 1]"
    "py_index ts (- 1) = Inr (last ts)"
proof -
  from assms obtain a b c d rest where ts: "ts = a # b # c # d # rest"
    by (cases ts; cases "tl ts"; cases "tl (tl ts)"; cases "tl (tl (tl ts))") auto
  show "py_slice ts 0 2 = [ts ! 0, ts ! 1]" "py_slice ts 2 4 = [ts ! 2, ts ! 3]"
    by (simp_all add: ts py_slice_def clamp_index_def)
  have "ts \<noteq> []" using ts by simp
  then show "py_index ts (- 1) = Inr (last ts)"
    by (simp add: py_index_def last_conv_nth Suc_leI)
  have "py_slice ts 4 (- 1) = take (length ts - 1 - 4) (drop 4 ts)"
    using assms by (simp add: py_slice_def clamp_index_def nat_diff_distrib)
  also have "\<dots> = map ((!) ts) [4 ..< length ts - 1]"
    by (rule nth_equalityI) (use assms in \<open>auto simp: nth_append\<close>)
  finally show "py_slice ts 4 (- 1) = map ((!) ts) [4 ..< length ts - 1]" .
qed









lemma make_date_Inl: "make_date yo mo do' = Inl e \<Longrightarrow> e = ValueError"
  by (auto simp: make_date_def split: option.splits if_splits)


lemmas date_eval = build_transaction_def py_slice_def clamp_index_def py_index_def
  strptime_b_d_Y_def make_date_def year_of_field_def month_of_abbrev_def month_names_def
  ascii_lower_def day_of_field_def number_field_def days_in_month_def is_leap_def
  strftime_Y_m_d_def iso_8601_def pad4_def pad2_def digit_char_def



section \<open>Lines that fail to parse\<close>

lemma all_space_split: "list_all is_space s \<Longrightarrow> split_from [] s = []"
  by (induction s) auto

lemma dropWhile_all: "dropWhile P xs = [] \<Longrightarrow> list_all P xs"
  by (induction xs) (auto split: if_splits)

lemma strip_empty_split: "strip s = [] \<Longrightarrow> py_split s = []"
proof -
  assume "strip s = []"
  then have "dropWhile is_space (rev (dropWhile is_space s)) = []" by (simp add: strip_def)
  then have a: "list_all is_space (dropWhile is_space s)"
    using dropWhile_all [of is_space "rev (dropWhile is_space s)"] by (simp add: list_all_iff)
  have "dropWhile is_space s = []"
  proof (cases "dropWhile is_space s")
    case Nil
    then show ?thesis .
  next
    case (Cons x xs)
    then have "\<not> is_space x" using hd_dropWhile [of is_space s] by auto
    with a Cons show ?thesis by simp
  qed
  then have "list_all is_space s" by (rule dropWhile_all)
  then show "py_split s = []" by (simp add: py_split_def all_space_split)
qed

lemma strptime_error: "strptime_b_d_Y s = Inl e \<Longrightarrow> e = ValueError"
  by (auto simp: strptime_b_d_Y_def dest: make_date_Inl split: if_splits list.splits)

lemma py_float_error: "py_float s = Inl e \<Longrightarrow> e = ValueError"
  by (auto simp: py_float_def Let_def split: if_splits prod.splits)

lemma build_transaction_error:
  "build_transaction pad yr parts = Inl e \<Longrightarrow> e = ValueError \<or> e = IndexError"
  by (auto simp: build_transaction_def Let_def py_index_def parse_amount_def
      dest: strptime_error py_float_error split: sum.splits if_splits)

lemma build_transaction_bad_date:
  assumes "4 \<le> length parts"
    and "strptime_b_d_Y (py_join '' '' (py_slice parts 0 2) @ '' '' @ yr) = Inl e1
       \<or> strptime_b_d_Y (py_join '' '' (py_slice parts 2 4) @ '' '' @ yr) = Inl e2"
  shows "build_transaction pad yr parts = Inl ValueError"
proof -
  from assms(1) have i: "py_index parts (- 1) = Inr (last parts)"
    by (rule slice_tokens(4))
  from assms(2) show ?thesis
  proof
    assume a: "strptime_b_d_Y (py_join '' '' (py_slice parts 0 2) @ '' '' @ yr) = Inl e1"
    with strptime_error have "e1 = ValueError" by blast
    with a show ?thesis by (simp add: build_transaction_def Let_def i)
  next
    assume a: "strptime_b_d_Y (py_join '' '' (py_slice parts 2 4) @ '' '' @ yr) = Inl e2"
    with strptime_error have "e2 = ValueError" by blast
    with a show ?thesis
      by (auto simp: build_transaction_def Let_def i dest: strptime_error split: sum.splits)
  qed
qed

lemma process_line_total:
  "\<exists>ts' m. process_line pad fname yr line ts msgs = (Inr ts', msgs @ m) \<and>
      process_line pad fname yr line ts [] = (Inr ts', m)"
proof (cases "build_transaction pad yr (py_split line)")
  case (Inl e)
  with build_transaction_error have "e = ValueError \<or> e = IndexError" by blast
  with Inl show ?thesis by (auto simp: process_line_def Let_def)
next
  case (Inr t)
  then show ?thesis by (auto simp: process_line_def Let_def)
qed

lemma parse_lines_total:
  "\<exists>ts' m. parse_lines pad fname yr ls ts msgs = (Inr ts', msgs @ m) \<and>
      parse_lines pad fname yr ls ts [] = (Inr ts', m)"
proof (induction ls arbitrary: ts msgs)
  case Nil
  show ?case by simp
next
  case (Cons l ls)
  obtain ts1 m1 where p: "process_line pad fname yr l ts msgs = (Inr ts1, msgs @ m1)"
    "process_line pad fname yr l ts [] = (Inr ts1, m1)"
    using process_line_total by blast
  obtain ts2 m2 where q: "parse_lines pad fname yr ls ts1 (msgs @ m1) = (Inr ts2, (msgs @ m1) @ m2)"
    "parse_lines pad fname yr ls ts1 [] = (Inr ts2, m2)"
    using Cons.IH [of ts1 "msgs @ m1"] by blast
  obtain ts3 m3 where r: "parse_lines pad fname yr ls ts1 m1 = (Inr ts3, m1 @ m3)"
    "parse_lines pad fname yr ls ts1 [] = (Inr ts3, m3)"
    using Cons.IH [of ts1 m1] by blast
  from q(2) r(2) have e: "ts3 = ts2" "m3 = m2" by simp_all
  show ?case
    by (rule exI [of _ ts2], rule exI [of _ "m1 @ m2"]) (simp add: p q r e)
qed

lemma parse_lines_append:
  "parse_lines pad fname yr (xs @ ys) ts msgs =
     (case parse_lines pad fname yr xs ts msgs of
        (Inl e, m) \<Rightarrow> (Inl e, m)
      | (Inr ts', m) \<Rightarrow> parse_lines pad fname yr ys ts' m)"
  by (induction xs arbitrary: ts msgs) (auto split: prod.splits sum.splits)

lemma parse_lines_records:
  "fst (parse_lines pad fname yr ls ts msgs) = fst (parse_lines pad fname yr ls ts msgs')"
  using parse_lines_total [of pad fname yr ls ts msgs] parse_lines_total [of pad fname yr ls ts msgs']
  by auto

text \<open>
  Claim C5. When a transaction line has a date pair that \<open>strptime\<close> rejects (a day
  beyond the month's length as in \<open>Feb 30\<close>, or an abbreviation that is no month as in
  \<open>Xyz 5\<close>), the line yields no record, a warning for the line is printed and nothing
  is raised, and the records of the lines before and after it on the page are the same
  as without the line.
\<close>

theorem bad_date_line_skipped:
  assumes "is_transaction_line (py_split line)"
    and "strptime_b_d_Y (py_join '' '' (py_slice (py_split line) 0 2) @ '' '' @ yr) = Inl e1
       \<or> strptime_b_d_Y (py_join '' '' (py_slice (py_split line) 2 4) @ '' '' @ yr) = Inl e2"
  shows "process_line pad fname yr line ts msgs =
           (Inr ts, msgs @ [LineWarning fname line, LineError ValueError])
         \<and> fst (parse_lines pad fname yr (before @ line # after) ts msgs) =
             fst (parse_lines pad fname yr (before @ after) ts msgs)
         \<and> LineWarning fname line \<in> set (snd (parse_lines pad fname yr (before @ line # after) ts msgs))
         \<and> strptime_b_d_Y ''Feb 30 2024'' = Inl ValueError
         \<and> strptime_b_d_Y ''Xyz 5 2024'' = Inl ValueError"
proof (intro conjI)
  from assms(1) have len: "4 \<le> length (py_split line)" by (simp add: is_transaction_line_def)
  then have "py_split line \<noteq> []" by auto
  with strip_empty_split have ne: "strip line \<noteq> []" by blast
  have b: "build_transaction pad yr (py_split line) = Inl ValueError"
    using len assms(2) by (rule build_transaction_bad_date)
  show pl: "process_line pad fname yr line ts msgs =
      (Inr ts, msgs @ [LineWarning fname line, LineError ValueError])" for ts msgs
    using ne assms(1) b by (simp add: process_line_def)
  obtain ts1 m1 where p: "parse_lines pad fname yr before ts msgs = (Inr ts1, msgs @ m1)"
    using parse_lines_total by blast
  have 1: "parse_lines pad fname yr (before @ line # after) ts msgs =
      parse_lines pad fname yr after ts1 ((msgs @ m1) @ [LineWarning fname line, LineError ValueError])"
    by (simp add: parse_lines_append p pl)
  have 2: "parse_lines pad fname yr (before @ after) ts msgs =
      parse_lines pad fname yr after ts1 (msgs @ m1)"
    by (simp add: parse_lines_append p)
  show "fst (parse_lines pad fname yr (before @ line # after) ts msgs) =
        fst (parse_lines pad fname yr (before @ after) ts msgs)"
    unfolding 1 2 by (rule parse_lines_records)
  obtain ts2 m2 where "parse_lines pad fname yr after ts1
      ((msgs @ m1) @ [LineWarning fname line, LineError ValueError]) =
      (Inr ts2, ((msgs @ m1) @ [LineWarning fname line, LineError ValueError]) @ m2)"
    using parse_lines_total by blast
  then show "LineWarning fname line \<in> set (snd (parse_lines pad fname yr (before @ line # after) ts msgs))"
    unfolding 1 by simp
next
  show "strptime_b_d_Y ''Feb 30 2024'' = Inl ValueError"
    by (simp add: date_eval float_eval py_split_def)
next
  show "strptime_b_d_Y ''Xyz 5 2024'' = Inl ValueError"
    by (simp add: date_eval float_eval py_split_def)
qed

theorem bad_date_line_skipped_witness:
  "is_transaction_line (py_split ''Feb 30 Mar 1 SHOP $1.00'') \<and>
   strptime_b_d_Y (py_join '' '' (py_slice (py_split ''Feb 30 Mar 1 SHOP $1.00'') 0 2) @ '' '' @ ''2024'')
     = Inl ValueError \<and>
   process_line False ''f.pdf'' ''2024'' ''Feb 30 Mar 1 SHOP $1.00'' [] [] =
     (Inr [], [LineWarning ''f.pdf'' ''Feb 30 Mar 1 SHOP $1.00'', LineError ValueError])"
proof -
  have s: "py_split ''Feb 30 Mar 1 SHOP $1.00'' = [''Feb'', ''30'', ''Mar'', ''1'', ''SHOP'', ''$1.00'']"
    by (simp add: py_split_def is_space_def)
  have h1: "is_transaction_line (py_split ''Feb 30 Mar 1 SHOP $1.00'')"
    unfolding s by (simp add: is_transaction_line_def pattern_eval)
  have h2: "strptime_b_d_Y (py_join '' '' (py_slice (py_split ''Feb 30 Mar 1 SHOP $1.00'') 0 2) @ '' '' @ ''2024'')
     = Inl ValueError"
    unfolding s by (simp add: date_eval float_eval py_split_def)
  from bad_date_line_skipped [OF h1 disjI1 [OF h2], of False "''f.pdf''" "[]" "[]"] h1 h2
  show ?thesis by simp
qed

section \<open>Documents and the ledger\<close>

lemma process_line_inv:
  assumes "\<And>l t. is_transaction_line (py_split l) \<Longrightarrow>
              build_transaction pad yr (py_split l) = Inr t \<Longrightarrow> P t"
    and "list_all P ts" and "process_line pad fname yr line ts msgs = (Inr ts', m)"
  shows "list_all P ts'"
  using assms
  by (auto simp: process_line_def Let_def split: if_splits sum.splits)

lemma parse_lines_inv:
  assumes "\<And>l t. is_transaction_line (py_split l) \<Longrightarrow>
              build_transaction pad yr (py_split l) = Inr t \<Longrightarrow> P t"
    and "list_all P ts" and "parse_lines pad fname yr ls ts msgs = (Inr ts', m)"
  shows "list_all P ts'"
  using assms(2,3)
proof (induction ls arbitrary: ts msgs)
  case Nil
  then show ?case by simp
next
  case (Cons l ls)
  obtain ts1 m1 where p: "process_line pad fname yr l ts msgs = (Inr ts1, m1)"
    using process_line_total [of pad fname yr l ts msgs] by blast
  from process_line_inv [OF assms(1) Cons.prems(1) p] have "list_all P ts1" .
  moreover from Cons.prems(2) p have "parse_lines pad fname yr ls ts1 m1 = (Inr ts', m)" by simp
  ultimately show ?case by (rule Cons.IH)
qed

lemma parse_pages_inv:
  assumes "\<And>l t. is_transaction_line (py_split l) \<Longrightarrow>
              build_transaction pad yr (py_split l) = Inr t \<Longrightarrow> P t"
    and "list_all P ts" and "parse_pages pad fname yr ps ts msgs = (Inr ts', m)"
  shows "list_all P ts'"
  using assms(2,3)
proof (induction ps arbitrary: ts msgs)
  case Nil
  then show ?case by simp
next
  case (Cons p ps)
  show ?case
  proof (cases p)
    case (PageRaises e)
    with Cons.prems show ?thesis by simp
  next
    case (PageText str)
    obtain ts1 m1 where q: "parse_lines pad fname yr (split_on newline str) ts msgs = (Inr ts1, msgs @ m1)"
      using parse_lines_total by blast
    from parse_lines_inv [OF assms(1) Cons.prems(1) q] have "list_all P ts1" .
    moreover from Cons.prems(2) PageText q
    have "parse_pages pad fname yr ps ts1 (msgs @ m1) = (Inr ts', m)" by simp
    ultimately show ?thesis by (rule Cons.IH)
  qed
qed

lemma parse_statement_inv:
  assumes "\<And>l t. is_transaction_line (py_split l) \<Longrightarrow>
      build_transaction pad (extract_year_from_filename (filename doc)) (py_split l) = Inr t \<Longrightarrow> P t"
    and "fst (parse_statement pad doc msgs) = Some ts"
  shows "list_all P ts"
proof (cases "opened doc")
  case (Inl e)
  with assms(2) show ?thesis by (simp add: parse_statement_def)
next
  case (Inr ps)
  obtain r m where pp: "parse_pages pad (filename doc) (extract_year_from_filename (filename doc)) ps [] msgs = (r, m)"
    by (cases "parse_pages pad (filename doc) (extract_year_from_filename (filename doc)) ps [] msgs")
  with assms(2) Inr have "r = Inr ts"
    by (cases r) (simp_all add: parse_statement_def)
  with pp have "parse_pages pad (filename doc) (extract_year_from_filename (filename doc)) ps [] msgs = (Inr ts, m)"
    by simp
  then show ?thesis
    using parse_pages_inv [where P = P and pad = pad and ts = "[]" and ts' = ts
        and yr = "extract_year_from_filename (filename doc)", OF assms(1)]
    by simp
qed

lemma parse_pages_total:
  "\<exists>r m. parse_pages pad fname yr ps ts msgs = (r, msgs @ m) \<and>
      parse_pages pad fname yr ps ts [] = (r, m)"
proof (induction ps arbitrary: ts msgs)
  case Nil
  show ?case by simp
next
  case (Cons p ps)
  show ?case
  proof (cases p)
    case (PageRaises e)
    then show ?thesis by simp
  next
    case (PageText str)
    obtain ts1 m1 where q: "parse_lines pad fname yr (split_on newline str) ts msgs = (Inr ts1, msgs @ m1)"
      "parse_lines pad fname yr (split_on newline str) ts [] = (Inr ts1, m1)"
      using parse_lines_total by blast
    obtain r2 m2 where a: "parse_pages pad fname yr ps ts1 (msgs @ m1) = (r2, (msgs @ m1) @ m2)"
      "parse_pages pad fname yr ps ts1 [] = (r2, m2)"
      using Cons.IH [of ts1 "msgs @ m1"] by blast
    obtain r3 m3 where b: "parse_pages pad fname yr ps ts1 m1 = (r3, m1 @ m3)"
      "parse_pages pad fname yr ps ts1 [] = (r3, m3)"
      using Cons.IH [of ts1 m1] by blast
    from a(2) b(2) have e: "r3 = r2" "m3 = m2" by simp_all
    show ?thesis
      by (rule exI [of _ r2], rule exI [of _ "m1 @ m2"]) (simp add: PageText q a b e)
  qed
qed

lemma parse_statement_records:
  "fst (parse_statement pad doc msgs) = fst (parse_statement pad doc [])"
proof (cases "opened doc")
  case (Inl e)
  then show ?thesis by (simp add: parse_statement_def)
next
  case (Inr ps)
  obtain r m where "parse_pages pad (filename doc) (extract_year_from_filename (filename doc)) ps [] msgs = (r, msgs @ m)"
    "parse_pages pad (filename doc) (extract_year_from_filename (filename doc)) ps [] [] = (r, m)"
    using parse_pages_total by blast
  with Inr show ?thesis by (cases r) (simp_all add: parse_statement_def)
qed

lemma parse_pages_raise:
  "fst (parse_pages pad fname yr (map PageText texts @ PageRaises e # rest) ts msgs) = Inl e"
proof (induction texts arbitrary: ts msgs)
  case Nil
  show ?case by simp
next
  case (Cons str texts)
  obtain ts1 m1 where q: "parse_lines pad fname yr (split_on newline str) ts msgs = (Inr ts1, msgs @ m1)"
    using parse_lines_total by blast
  show ?case using Cons.IH [of ts1 "msgs @ m1"] by (simp add: q)
qed

text \<open>The ledger after one file depends on the file and the ledger only.\<close>

lemma process_file_ledger:
  "transactions_by_year (process_file pad st doc) =
     (case fst (parse_statement pad doc []) of
        None \<Rightarrow> transactions_by_year st
      | Some ts \<Rightarrow>
          if ts = [] then transactions_by_year st
          else extend_year (transactions_by_year st) (extract_year_from_filename (filename doc)) ts)"
proof -
  obtain r m where p: "parse_statement pad doc (printed st @ [ProcessingFile (filename doc)]) = (r, m)"
    by (cases "parse_statement pad doc (printed st @ [ProcessingFile (filename doc)])")
  then have "fst (parse_statement pad doc []) = r"
    using parse_statement_records [of pad doc "printed st @ [ProcessingFile (filename doc)]"] by simp
  with p show ?thesis
    by (simp add: process_file_def Let_def split: option.splits)
qed

lemma foldl_process_file_ledger:
  "transactions_by_year st = transactions_by_year st' \<Longrightarrow>
     transactions_by_year (foldl (process_file pad) st docs) =
     transactions_by_year (foldl (process_file pad) st' docs)"
proof (induction docs arbitrary: st st')
  case Nil
  then show ?case by simp
next
  case (Cons d docs)
  have "transactions_by_year (process_file pad st d) = transactions_by_year (process_file pad st' d)"
    unfolding process_file_ledger Cons.prems ..
  then show ?case using Cons.IH [of "process_file pad st d" "process_file pad st' d"] by simp
qed

lemma process_all_ledger:
  "transactions_by_year (snd (process_all_statements pad docs st)) =
     transactions_by_year (foldl (process_file pad) st docs)"
proof (cases "docs = []")
  case True
  then show ?thesis by (simp add: process_all_statements_def)
next
  case False
  then have "snd (process_all_statements pad docs st) =
      foldl (process_file pad)
        (st\<lparr>printed := printed st @ [FoundFiles (length docs)]
             @ map (\<lambda>d. ListedFile (filename d)) docs @ [StartingProcessing]\<rparr>) docs"
    by (simp add: process_all_statements_def Let_def)
  then show ?thesis
    by (simp only:) (rule foldl_process_file_ledger, simp)
qed

lemma nearest_double_nonneg: "float_nonneg (nearest_double a b)"
proof (cases "a = 0")
  case True
  then show ?thesis by (simp add: nearest_double_def)
next
  case False
  obtain a' b' e where n: "normalise a b = (a', b', e)" by (cases "normalise a b")
  with False show ?thesis by (simp add: nearest_double_def pack_def)
qed

lemma built_amount_nonneg:
  assumes "is_transaction_line parts" and "build_transaction pad yr parts = Inr t"
  shows "float_nonneg (amount t)"
proof -
  from assms(1) have len: "4 \<le> length parts" and am: "is_amount (last parts)"
    by (simp_all add: is_transaction_line_def)
  note i = slice_tokens(4) [OF len]
  note p = parse_amount_value [OF am]
  from assms(2) have "amount t = nearest_double (amount_cents (last parts)) 100"
    by (auto simp: build_transaction_def Let_def i p split: sum.splits)
  then show ?thesis by (simp add: nearest_double_nonneg)
qed

lemma extend_year_inv:
  "\<forall>kv \<in> set led. list_all P (snd kv) \<Longrightarrow> list_all P ts \<Longrightarrow>
     \<forall>kv \<in> set (extend_year led yr ts). list_all P (snd kv)"
  by (induction led yr ts rule: extend_year.induct) auto

lemma process_file_inv:
  assumes "\<And>yr l t. is_transaction_line (py_split l) \<Longrightarrow>
              build_transaction pad yr (py_split l) = Inr t \<Longrightarrow> P t"
    and "\<forall>kv \<in> set (transactions_by_year st). list_all P (snd kv)"
  shows "\<forall>kv \<in> set (transactions_by_year (process_file pad st doc)). list_all P (snd kv)"
proof (cases "fst (parse_statement pad doc [])")
  case None
  with assms(2) show ?thesis by (simp add: process_file_ledger)
next
  case (Some ts)
  have "list_all P ts"
    using assms(1) Some by (rule parse_statement_inv)
  with assms(2) Some show ?thesis
    by (simp add: process_file_ledger extend_year_inv)
qed

lemma process_files_inv:
  assumes "\<And>yr l t. is_transaction_line (py_split l) \<Longrightarrow>
              build_transaction pad yr (py_split l) = Inr t \<Longrightarrow> P t"
    and "\<forall>kv \<in> set (transactions_by_year st). list_all P (snd kv)"
  shows "\<forall>kv \<in> set (transactions_by_year (foldl (process_file pad) st docs)). list_all P (snd kv)"
  using assms(2)
proof (induction docs arbitrary: st)
  case Nil
  then show ?case by simp
next
  case (Cons d docs)
  from process_file_inv [of pad P st d, OF assms(1) Cons.prems]
  have "\<forall>kv \<in> set (transactions_by_year (process_file pad st d)). list_all P (snd kv)" .
  from Cons.IH [OF this] show ?case by simp
qed

text \<open>
  Claim C10. Every record in the ledger after a run that starts from the empty ledger
  has an amount that is not negative. The sign is excluded by the amount check, not by
  the parser: \<open>parse_amount\<close> alone turns \<open>-$5.00\<close> into a negative float, and the check
  rejects that token.
\<close>

theorem ledger_amounts_nonnegative:
  "(process_all_statements pad pdf_files initial_state = (ok, st) \<longrightarrow>
      (\<forall>kv \<in> set (transactions_by_year st). \<forall>t \<in> set (snd kv). float_nonneg (amount t)))
   \<and> parse_amount ''-$5.00'' = Inr (Fin (- 5629499534213120) (- 50))
   \<and> \<not> float_nonneg (Fin (- 5629499534213120) (- 50))
   \<and> \<not> is_amount ''-$5.00''"
proof (intro conjI impI)
  assume a: "process_all_statements pad pdf_files initial_state = (ok, st)"
  have "transactions_by_year st =
      transactions_by_year (foldl (process_file pad) initial_state pdf_files)"
    using process_all_ledger [of pad pdf_files initial_state] a by simp
  moreover have "\<forall>kv \<in> set (transactions_by_year (foldl (process_file pad) initial_state pdf_files)).
      list_all (\<lambda>t. float_nonneg (amount t)) (snd kv)"
    by (rule process_files_inv) (auto simp: initial_state_def intro: built_amount_nonneg)
  ultimately show "\<forall>kv \<in> set (transactions_by_year st). \<forall>t \<in> set (snd kv). float_nonneg (amount t)"
    by (simp add: list_all_iff)
next
  show "parse_amount ''-$5.00'' = Inr (Fin (- 5629499534213120) (- 50))"
    by (simp add: float_eval)
next
  show "\<not> float_nonneg (Fin (- 5629499534213120) (- 50))" by simp
next
  show "\<not> is_amount ''-$5.00''" by (simp add: pattern_eval)
qed

text \<open>A line, a page and a run used as concrete inputs below.\<close>

lemma coffee_line:
  "process_line pad fname ''2024'' ''Jan 5 Jan 6 COFFEE SHOP $4.50'' ts msgs =
     (Inr (ts @ [\<lparr>transaction_date = ''2024-01-05'', post_date = ''2024-01-06'',
                   description = ''COFFEE SHOP'', amount = Fin 5066549580791808 (- 50)\<rparr>]), msgs)"
proof -
  have s: "py_split ''Jan 5 Jan 6 COFFEE SHOP $4.50'' =
      [''Jan'', ''5'', ''Jan'', ''6'', ''COFFEE'', ''SHOP'', ''$4.50'']"
    by (simp add: py_split_def is_space_def)
  have c: "is_transaction_line [''Jan'', ''5'', ''Jan'', ''6'', ''COFFEE'', ''SHOP'', ''$4.50'']"
    by (simp add: is_transaction_line_def pattern_eval)
  have n: "strip ''Jan 5 Jan 6 COFFEE SHOP $4.50'' \<noteq> []"
    by (simp add: strip_def is_space_def)
  have b: "build_transaction pad ''2024'' [''Jan'', ''5'', ''Jan'', ''6'', ''COFFEE'', ''SHOP'', ''$4.50''] =
     Inr \<lparr>transaction_date = ''2024-01-05'', post_date = ''2024-01-06'',
          description = ''COFFEE SHOP'', amount = Fin 5066549580791808 (- 50)\<rparr>"
    by (simp add: date_eval float_eval py_split_def)
  show ?thesis
    by (simp add: process_line_def Let_def s c n b)
qed

lemma coffee_page:
  "split_on newline ''Jan 5 Jan 6 COFFEE SHOP $4.50'' = [''Jan 5 Jan 6 COFFEE SHOP $4.50'']"
  by (simp add: split_on_def newline_def)

lemmas run_eval = process_all_statements_def process_file_def parse_statement_def
  extract_year_from_filename_def initial_state_def coffee_line coffee_page Let_def

theorem ledger_amounts_nonnegative_witness:
  "transactions_by_year (snd (process_all_statements False
      [\<lparr>filename = ''2024 Jan CreditCardStatement.pdf'',
        opened = Inr [PageText ''Jan 5 Jan 6 COFFEE SHOP $4.50'']\<rparr>] initial_state)) =
     [(''2024'', [\<lparr>transaction_date = ''2024-01-05'', post_date = ''2024-01-06'',
                   description = ''COFFEE SHOP'', amount = Fin 5066549580791808 (- 50)\<rparr>])]
   \<and> float_nonneg (amount \<lparr>transaction_date = ''2024-01-05'', post_date = ''2024-01-06'',
                   description = ''COFFEE SHOP'', amount = Fin 5066549580791808 (- 50)\<rparr>)"
proof -
  define docs where "docs = [\<lparr>filename = ''2024 Jan CreditCardStatement.pdf'',
        opened = Inr [PageText ''Jan 5 Jan 6 COFFEE SHOP $4.50'']\<rparr>]"
  define r where "r = \<lparr>transaction_date = ''2024-01-05'', post_date = ''2024-01-06'',
                   description = ''COFFEE SHOP'', amount = Fin 5066549580791808 (- 50)\<rparr>"
  have e: "transactions_by_year (snd (process_all_statements False docs initial_state)) =
     [(''2024'', [r])]"
    unfolding docs_def r_def by (simp add: run_eval)
  have h: "process_all_statements False docs initial_state =
      (fst (process_all_statements False docs initial_state),
       snd (process_all_statements False docs initial_state))" by simp
  from ledger_amounts_nonnegative [of False docs "fst (process_all_statements False docs initial_state)"
      "snd (process_all_statements False docs initial_state)"] h
  have "\<forall>kv \<in> set (transactions_by_year (snd (process_all_statements False docs initial_state))).
        \<forall>t \<in> set (snd kv). float_nonneg (amount t)" by blast
  then have "float_nonneg (amount r)" unfolding e by simp
  with e show ?thesis unfolding docs_def r_def by blast
qed

text \<open>
  Claim C9. When \<open>parse_statement\<close> ends in an exception (the document cannot be
  opened, or \<open>extract_text\<close> raises on some page after earlier pages were read), it
  returns \<open>None\<close> and the ledger after the file is the ledger before it: the records
  already parsed from the document are dropped, and the whole run ends with the ledger
  it would have without the document.
\<close>

theorem failed_document_leaves_ledger:
  "(fst (parse_statement pad doc msgs) = None \<longrightarrow>
      transactions_by_year (process_file pad st doc) = transactions_by_year st \<and>
      transactions_by_year (snd (process_all_statements pad (before @ doc # after) st)) =
      transactions_by_year (snd (process_all_statements pad (before @ after) st)))
   \<and> (opened doc = Inl e \<longrightarrow> fst (parse_statement pad doc msgs) = None)
   \<and> (opened doc = Inr (map PageText texts @ PageRaises e # rest) \<longrightarrow>
        fst (parse_statement pad doc msgs) = None)"
proof (intro conjI impI)
  assume "fst (parse_statement pad doc msgs) = None"
  then have n: "fst (parse_statement pad doc []) = None"
    using parse_statement_records [of pad doc msgs] by simp
  then show same: "transactions_by_year (process_file pad st doc) = transactions_by_year st" for st
    by (simp add: process_file_ledger)
  have "transactions_by_year (foldl (process_file pad) st (before @ doc # after)) =
      transactions_by_year (foldl (process_file pad) (process_file pad (foldl (process_file pad) st before) doc) after)"
    by simp
  also have "\<dots> = transactions_by_year (foldl (process_file pad) (foldl (process_file pad) st before) after)"
    by (rule foldl_process_file_ledger) (rule same)
  also have "\<dots> = transactions_by_year (foldl (process_file pad) st (before @ after))"
    by simp
  finally show "transactions_by_year (snd (process_all_statements pad (before @ doc # after) st)) =
      transactions_by_year (snd (process_all_statements pad (before @ after) st))"
    by (simp only: process_all_ledger)
next
  assume "opened doc = Inl e"
  then show "fst (parse_statement pad doc msgs) = None"
    by (simp add: parse_statement_def)
next
  assume o: "opened doc = Inr (map PageText texts @ PageRaises e # rest)"
  obtain r m where p: "parse_pages pad (filename doc) (extract_year_from_filename (filename doc))
      (map PageText texts @ PageRaises e # rest) [] msgs = (r, m)"
    by (cases "parse_pages pad (filename doc) (extract_year_from_filename (filename doc))
      (map PageText texts @ PageRaises e # rest) [] msgs")
  with parse_pages_raise [of pad "filename doc" "extract_year_from_filename (filename doc)" texts e rest "[]" msgs]
  have "r = Inl e" by simp
  with o p show "fst (parse_statement pad doc msgs) = None"
    by (simp add: parse_statement_def)
qed

theorem failed_document_leaves_ledger_witness:
  "opened \<lparr>filename = ''2024 Feb CreditCardStatement.pdf'',
           opened = Inr [PageText ''Jan 5 Jan 6 COFFEE SHOP $4.50'', PageRaises AttributeError]\<rparr> =
     Inr (map PageText [''Jan 5 Jan 6 COFFEE SHOP $4.50''] @ PageRaises AttributeError # [])
   \<and> fst (parse_statement False \<lparr>filename = ''2024 Feb CreditCardStatement.pdf'',
           opened = Inr [PageText ''Jan 5 Jan 6 COFFEE SHOP $4.50'', PageRaises AttributeError]\<rparr> []) = None
   \<and> transactions_by_year (process_file False initial_state
         \<lparr>filename = ''2024 Feb CreditCardStatement.pdf'',
          opened = Inr [PageText ''Jan 5 Jan 6 COFFEE SHOP $4.50'', PageRaises AttributeError]\<rparr>) = []
   \<and> fst (parse_statement False \<lparr>filename = ''2024 Feb CreditCardStatement.pdf'',
           opened = Inr [PageText ''Jan 5 Jan 6 COFFEE SHOP $4.50'']\<rparr> []) =
       Some [\<lparr>transaction_date = ''2024-01-05'', post_date = ''2024-01-06'',
              description = ''COFFEE SHOP'', amount = Fin 5066549580791808 (- 50)\<rparr>]"
proof -
  define doc where "doc = \<lparr>filename = ''2024 Feb CreditCardStatement.pdf'',
           opened = Inr [PageText ''Jan 5 Jan 6 COFFEE SHOP $4.50'', PageRaises AttributeError]\<rparr>"
  have o: "opened doc = Inr (map PageText [''Jan 5 Jan 6 COFFEE SHOP $4.50''] @ PageRaises AttributeError # [])"
    by (simp add: doc_def)
  note inst = failed_document_leaves_ledger [where pad = False and doc = doc and msgs = "[]"
      and st = initial_state and before = "[]" and after = "[]" and e = AttributeError
      and texts = "[''Jan 5 Jan 6 COFFEE SHOP $4.50'']" and rest = "[]"]
  from inst o have n: "fst (parse_statement False doc []) = None"
    by (elim conjE) (erule mp)
  from inst n have "transactions_by_year (process_file False initial_state doc) =
      transactions_by_year initial_state"
    by (elim conjE) (drule (1) mp, erule conjunct1)
  note n this
  moreover have "fst (parse_statement False \<lparr>filename = ''2024 Feb CreditCardStatement.pdf'',
           opened = Inr [PageText ''Jan 5 Jan 6 COFFEE SHOP $4.50'']\<rparr> []) =
       Some [\<lparr>transaction_date = ''2024-01-05'', post_date = ''2024-01-06'',
              description = ''COFFEE SHOP'', amount = Fin 5066549580791808 (- 50)\<rparr>]"
    by (simp add: run_eval)
  ultimately show ?thesis using o unfolding doc_def by (simp add: initial_state_def)
qed

end
